theory Spec2Isabelle
  imports Complex_Main
begin

section \<open>Python values, exceptions and loops\<close>

text \<open>
  The repository is Python on top of Qiskit and numpy. A raised exception is the left
  summand of a result; \<open>bind_err\<close> sequences two statements and \<open>for_each\<close> is a
  \<^verbatim>\<open>for\<close> loop whose body may raise.
\<close>

datatype error =
  TypeError | AttributeError | IndexError | CircuitError | ValueError | OverflowError

definition bind_err :: "error + 'a \<Rightarrow> ('a \<Rightarrow> error + 'b) \<Rightarrow> error + 'b" where
  "bind_err m f = (case m of Inl e \<Rightarrow> Inl e | Inr v \<Rightarrow> f v)"

fun for_each :: "('a \<Rightarrow> 's \<Rightarrow> error + 's) \<Rightarrow> 'a list \<Rightarrow> 's \<Rightarrow> error + 's" where
  "for_each body [] s = Inr s"
| "for_each body (x # xs) s = bind_err (body x s) (\<lambda>s'. for_each body xs s')"

text \<open>\<^verbatim>\<open>range(start, stop)\<close> and \<^verbatim>\<open>range(start, stop, -1)\<close> over Python's integers.\<close>

definition py_range :: "int \<Rightarrow> int \<Rightarrow> int list" where
  "py_range start stop = map (\<lambda>i. start + int i) [0..<nat (stop - start)]"

definition py_range_down :: "int \<Rightarrow> int \<Rightarrow> int list" where
  "py_range_down start stop = map (\<lambda>i. start - int i) [0..<nat (start - stop)]"

section \<open>\<^verbatim>\<open>to_binary\<close> (code_oracle.py and functions_oracles.py, the same text)\<close>

text \<open>
  \<open>bin_digits n\<close> is \<^verbatim>\<open>bin(n)[2:]\<close> for a non-negative \<open>n\<close>, \<open>dec_digits n\<close> is
  \<^verbatim>\<open>'%d' % n\<close>, and \<open>rstrip0\<close> is \<^verbatim>\<open>s.rstrip('0')\<close>.
\<close>

definition bin_digit :: "nat \<Rightarrow> char" where
  "bin_digit d = (if d = 0 then CHR ''0'' else CHR ''1'')"

fun bin_digits :: "nat \<Rightarrow> string" where
  "bin_digits n = (if n < 2 then [bin_digit n] else bin_digits (n div 2) @ [bin_digit (n mod 2)])"

fun dec_digits :: "nat \<Rightarrow> string" where
  "dec_digits n =
     (if n < 10 then [''0123456789'' ! n] else dec_digits (n div 10) @ [''0123456789'' ! (n mod 10)])"

definition rstrip0 :: "string \<Rightarrow> string" where
  "rstrip0 s = rev (dropWhile (\<lambda>c. c = CHR ''0'') (rev s))"

text \<open>
  \<^verbatim>\<open>to_binary(number, nbits)\<close>. The result is the pair of what the call prints (one
  string per \<^verbatim>\<open>print\<close>) and what it returns; \<open>None\<close> is Python's \<^verbatim>\<open>None\<close>, returned
  by falling off the end of the function after the \<^verbatim>\<open>print\<close>.
\<close>

definition to_binary :: "nat \<Rightarrow> int option \<Rightarrow> string list \<times> string option" where
  "to_binary number nbits =
     (case nbits of
        None \<Rightarrow> ([], Some (bin_digits number))
      | Some nb \<Rightarrow>
          (let binary = bin_digits number in
           if nb < int (length binary)
           then ([''Error, nbits must be larger than '' @ dec_digits (length binary) @ ''.''], None)
           else ([], Some (replicate (nat (nb - int (length binary))) (CHR ''0'') @ binary))))"

text \<open>Python's \<^verbatim>\<open>int.bit_length\<close>, the notion the specification uses for the error case.\<close>

fun bit_length :: "nat \<Rightarrow> nat" where
  "bit_length n = (if n = 0 then 0 else Suc (bit_length (n div 2)))"

section \<open>Qiskit circuits\<close>

text \<open>
  A circuit is its width and the list of its instructions, in the order they were
  appended; the display name is left out (it has no effect on any gate). An
  instruction is a gate and the wires it acts on, already resolved to wire numbers.
  For a controlled gate the controls come first and the target last, as Qiskit orders
  them.

  The argument \<^verbatim>\<open>Ugate\<close> of \<^verbatim>\<open>_gate_U_pow\<close> is a 2 by 2 array of complex numbers
  (\<^verbatim>\<open>np.array 2x2\<close> in its docstring), here the pair of its rows. The matrices that
  numpy computes from it (eigendecomposition, complex power, inverse) are not
  evaluated: the gate records the arguments of the call. \<^verbatim>\<open>gate_circuit.unitary\<close>
  raises \<^verbatim>\<open>ValueError\<close> unless the matrix it is given is unitary; that matrix has the
  eigenvectors of \<^verbatim>\<open>Ugate\<close> and powers of its eigenvalues, and is unitary when
  \<^verbatim>\<open>Ugate\<close> is. The model makes the test on \<^verbatim>\<open>Ugate\<close>, in exact arithmetic: a float
  is the real number it stands for.
  \<^verbatim>\<open>2**k\<close> is an integer for \<open>k \<ge> 0\<close> and the float \<open>2^k\<close> otherwise, a real number
  in both cases. \<^verbatim>\<open>_gate_U_pow\<close> only inverts its \<^verbatim>\<open>denominator_exponent\<close>
  (\<^verbatim>\<open>1 / np.abs(denominator_exponent)\<close>, which for a large integer underflows to 0
  without raising) and prints it in the name.
\<close>

type_synonym matrix = "(complex \<times> complex) \<times> (complex \<times> complex)"

definition is_unitary :: "matrix \<Rightarrow> bool" where
  "is_unitary U =
     (case U of ((a, b), (c, d)) \<Rightarrow>
        cnj a * a + cnj c * c = 1 \<and> cnj b * b + cnj d * d = 1 \<and> cnj a * b + cnj c * d = 0)"

record U_pow =
  pow_Ugate :: matrix
  pow_denominator_exponent :: real
  pow_inv :: bool

definition gate_U_pow :: "matrix \<Rightarrow> real \<Rightarrow> bool \<Rightarrow> error + U_pow" where
  "gate_U_pow Ugate denominator_exponent inv' =
     (if is_unitary Ugate
      then Inr \<lparr>pow_Ugate = Ugate, pow_denominator_exponent = denominator_exponent,
                pow_inv = inv'\<rparr>
      else Inl ValueError)"

definition pow2 :: "int \<Rightarrow> real" where
  "pow2 k = (if 0 \<le> k then 2 ^ nat k else 1 / 2 ^ nat (- k))"

datatype gate =
    XGate
  | ZGate
  | HGate
  | MCXGate nat
  | CUGate U_pow
  | CRXGate real
  | Diagonal "int list"

type_synonym instr = "gate \<times> nat list"

record circuit =
  num_qubits :: nat
  data :: "instr list"

definition QuantumCircuit :: "nat \<Rightarrow> circuit" where
  "QuantumCircuit n = \<lparr>num_qubits = n, data = []\<rparr>"

fun ilog2 :: "nat \<Rightarrow> nat" where
  "ilog2 n = (if n < 2 then 0 else Suc (ilog2 (n div 2)))"

fun gate_num_qubits :: "gate \<Rightarrow> nat" where
  "gate_num_qubits XGate = 1"
| "gate_num_qubits ZGate = 1"
| "gate_num_qubits HGate = 1"
| "gate_num_qubits (MCXGate num_ctrl_qubits) = num_ctrl_qubits + 1"
| "gate_num_qubits (CUGate u) = 2"
| "gate_num_qubits (CRXGate theta) = 2"
| "gate_num_qubits (Diagonal diag) = ilog2 (length diag)"

text \<open>
  Qiskit resolves an integer wire specifier by indexing the list of the circuit's
  qubits, so a negative integer counts from the end and an integer out of range raises
  \<^verbatim>\<open>CircuitError\<close>. Appending a gate raises \<^verbatim>\<open>CircuitError\<close> when the number of wires
  is not the gate's or a wire is named twice.
\<close>

definition qubit_index :: "circuit \<Rightarrow> int \<Rightarrow> error + nat" where
  "qubit_index circ q =
     (let w = int (num_qubits circ) in
      if 0 \<le> q \<and> q < w then Inr (nat q)
      else if - w \<le> q \<and> q < 0 then Inr (nat (w + q))
      else Inl CircuitError)"

fun qubit_indices :: "circuit \<Rightarrow> int list \<Rightarrow> error + nat list" where
  "qubit_indices circ [] = Inr []"
| "qubit_indices circ (q # qs) =
     bind_err (qubit_index circ q) (\<lambda>w.
     bind_err (qubit_indices circ qs) (\<lambda>ws. Inr (w # ws)))"

definition append_gate :: "circuit \<Rightarrow> gate \<Rightarrow> int list \<Rightarrow> error + circuit" where
  "append_gate circ g qargs =
     bind_err (qubit_indices circ qargs) (\<lambda>ws.
       if length ws = gate_num_qubits g \<and> distinct ws
       then Inr (circ\<lparr>data := data circ @ [(g, ws)]\<rparr>)
       else Inl CircuitError)"

definition circuit_x :: "circuit \<Rightarrow> int \<Rightarrow> error + circuit" where
  "circuit_x circ q = append_gate circ XGate [q]"

definition circuit_z :: "circuit \<Rightarrow> int \<Rightarrow> error + circuit" where
  "circuit_z circ q = append_gate circ ZGate [q]"

definition circuit_h :: "circuit \<Rightarrow> int \<Rightarrow> error + circuit" where
  "circuit_h circ q = append_gate circ HGate [q]"

definition circuit_crx :: "circuit \<Rightarrow> real \<Rightarrow> int \<Rightarrow> int \<Rightarrow> error + circuit" where
  "circuit_crx circ theta control_qubit target_qubit =
     append_gate circ (CRXGate theta) [control_qubit, target_qubit]"

text \<open>
  \<^verbatim>\<open>circuit.compose(other, qubits, inplace=True)\<close> splices the instructions of
  \<open>other\<close> into \<open>circ\<close>, wire \<open>i\<close> of \<open>other\<close> becoming wire \<open>qubits[i]\<close> of \<open>circ\<close>.
  \<^verbatim>\<open>circuit.append(other.to_gate(), qargs)\<close> wraps the same instructions in one
  composite gate that acts as its definition on the wires \<open>qargs\<close>; the model stores
  the definition inlined, so both are \<open>circuit_compose\<close>.
\<close>

definition circuit_compose :: "circuit \<Rightarrow> circuit \<Rightarrow> int list \<Rightarrow> error + circuit" where
  "circuit_compose circ other qubits =
     bind_err (qubit_indices circ qubits) (\<lambda>ws.
       if length ws = num_qubits other \<and> distinct ws
       then Inr (circ\<lparr>data := data circ @ map (\<lambda>(g, vs). (g, map (\<lambda>v. ws ! v) vs)) (data other)\<rparr>)
       else Inl CircuitError)"

section \<open>code_oracle.py: the multi-controlled Z from Qiskit's \<^verbatim>\<open>MCXGate\<close>\<close>

definition multi_control_z_mcx :: "nat \<Rightarrow> error + circuit" where
  "multi_control_z_mcx nqubits =
     (let circuit = QuantumCircuit nqubits in
      bind_err (circuit_h circuit (int nqubits - 1)) (\<lambda>circuit.
      bind_err (append_gate circuit (MCXGate (nat (int nqubits - 1))) (py_range 0 (int nqubits)))
        (\<lambda>circuit.
      circuit_h circuit (int nqubits - 1))))"

section \<open>The less-than oracle\<close>

text \<open>
  \<^verbatim>\<open>oracle_less_than\<close> has the same text in code_oracle.py and in
  functions_oracles.py; the two differ in the \<^verbatim>\<open>multi_control_z\<close> they call, the
  parameter \<open>mcz\<close> of the shared body.
\<close>

definition oracle_less_than_body ::
    "(nat \<Rightarrow> error + circuit) \<Rightarrow> nat \<Rightarrow> nat \<Rightarrow> error + circuit" where
  "oracle_less_than_body mcz number nqubits =
     (let circuit = QuantumCircuit nqubits; n = int nqubits in
      case snd (to_binary number (Some n)) of
        None \<Rightarrow> Inl AttributeError
      | Some binary \<Rightarrow>
          (case rstrip0 binary of
             [] \<Rightarrow> Inl IndexError
           | first # rest \<Rightarrow>
               bind_err
                 (if first = CHR ''1''
                  then bind_err (circuit_x circuit (n - 1)) (\<lambda>circuit.
                       bind_err (circuit_z circuit (n - 1)) (\<lambda>circuit.
                       circuit_x circuit (n - 1)))
                  else circuit_x circuit (n - 1)) (\<lambda>circuit.
               bind_err
                 (for_each (\<lambda>(position1, val) circuit.
                    (let position = int position1 + 1 in
                     if val = CHR ''0''
                     then circuit_x circuit (n - position - 1)
                     else bind_err (circuit_x circuit (n - position - 1)) (\<lambda>circuit.
                          bind_err (mcz (nat (position + 1))) (\<lambda>multi_z.
                          bind_err (circuit_compose circuit multi_z
                                      (py_range_down (n - 1) (n - position - 2))) (\<lambda>circuit.
                          circuit_x circuit (n - position - 1))))))
                    (enumerate 0 rest) circuit) (\<lambda>circuit.
               for_each (\<lambda>(position, val) circuit.
                    if val = CHR ''0'' then circuit_x circuit (n - int position - 1)
                    else Inr circuit)
                 (enumerate 0 (first # rest)) circuit))))"

definition oracle_less_than_mcx :: "nat \<Rightarrow> nat \<Rightarrow> error + circuit" where
  "oracle_less_than_mcx number nqubits = oracle_less_than_body multi_control_z_mcx number nqubits"

section \<open>linear_mc_gate.py\<close>

text \<open>
  \<^verbatim>\<open>gateU.control(1)\<close> is the two-wire gate \<open>CUGate\<close>; composing it at
  \<^verbatim>\<open>[control, target]\<close> appends it there.
\<close>

definition build_P_gates :: "matrix \<Rightarrow> int \<Rightarrow> circuit \<Rightarrow> bool \<Rightarrow> error + circuit" where
  "build_P_gates gate nqubits circuit inv' =
     (let controls = (if inv' then py_range 1 (nqubits - 1) else py_range_down (nqubits - 2) 0) in
      for_each (\<lambda>k circuit.
          (let exponent = pow2 (nqubits - 1 - k) in
           bind_err (gate_U_pow gate exponent inv') (\<lambda>gateU.
           append_gate circuit (CUGate gateU) [k, nqubits - 1])))
        controls circuit)"

text \<open>
  The list comprehension of \<^verbatim>\<open>_build_Q_gates\<close>, and the loop over the sorted pairs.
  \<^verbatim>\<open>list.sort\<close> is stable, also with \<^verbatim>\<open>reverse=True\<close>, which sorts as if every
  comparison were reversed: a stable sort on the negated key. \<open>sort_key\<close> is a stable
  insertion sort.

  Every pair has \<open>control < target\<close>, so \<^verbatim>\<open>param_turn = 2**exponent\<close> is an integer.
  \<^verbatim>\<open>np.pi/param_turn\<close> divides a float by it: Python converts the integer to a float
  first and raises \<^verbatim>\<open>OverflowError\<close> when it is \<open>2^1024\<close> or more, the argument being
  evaluated before \<^verbatim>\<open>circuit.crx\<close> is called. \<open>float_div\<close> is that division, over the
  reals below the bound.
\<close>

definition qubit_pairs :: "int \<Rightarrow> int \<Rightarrow> (int \<times> int) list" where
  "qubit_pairs start nqubits =
     concat (map (\<lambda>target. map (\<lambda>control. (control, target)) (py_range start target))
                 (py_range 0 nqubits))"

definition float_div :: "real \<Rightarrow> real \<Rightarrow> error + real" where
  "float_div x param_turn =
     (if 2 ^ 1024 \<le> param_turn then Inl OverflowError else Inr (x / param_turn))"

definition crx_pass :: "real \<Rightarrow> (int \<times> int) list \<Rightarrow> circuit \<Rightarrow> error + circuit" where
  "crx_pass numerator pairs circuit =
     for_each (\<lambda>pair circuit.
         (let exponent = snd pair - fst pair;
              exponent = (if fst pair = 0 then exponent - 1 else exponent);
              param_turn = pow2 exponent
          in bind_err (float_div numerator param_turn) (\<lambda>theta.
             circuit_crx circuit theta (fst pair) (snd pair))))
       pairs circuit"

definition build_Q_gates :: "int \<Rightarrow> circuit \<Rightarrow> bool \<Rightarrow> error + circuit" where
  "build_Q_gates nqubits circuit inv' =
     (let start = (if inv' then 1 else 0);
          pairs1 = sort_key (\<lambda>k. - (fst k + snd k)) (qubit_pairs start nqubits)
      in bind_err (crx_pass pi pairs1 circuit) (\<lambda>circuit.
         (let start = (if inv' then 0 else 1);
              pairs2 = sort_key (\<lambda>k. fst k + snd k) (qubit_pairs start nqubits)
          in crx_pass (- pi) pairs2 circuit)))"

text \<open>
  \<open>linear_mc_block\<close> is the local \<^verbatim>\<open>gate_circuit\<close> of \<^verbatim>\<open>linear_mc_gate\<close> once its five
  steps have run; \<open>linear_mc_gate\<close> composes it into the caller's circuit, which the
  source mutates in place and the model returns.
\<close>

definition linear_mc_block :: "matrix \<Rightarrow> int list \<Rightarrow> int \<Rightarrow> error + circuit" where
  "linear_mc_block gate controls target =
     (let nqubits = int (length controls) + 1;
          gate_circuit = QuantumCircuit (nat nqubits)
      in bind_err (build_P_gates gate nqubits gate_circuit False) (\<lambda>gate_circuit.
         (let exponent = pow2 (nqubits - 2) in
          bind_err (gate_U_pow gate exponent False) (\<lambda>gateU.
          bind_err (append_gate gate_circuit (CUGate gateU) [0, target]) (\<lambda>gate_circuit.
          bind_err (build_Q_gates (nqubits - 1) gate_circuit False) (\<lambda>gate_circuit.
          bind_err (build_P_gates gate nqubits gate_circuit True) (\<lambda>gate_circuit.
          build_Q_gates (nqubits - 1) gate_circuit True)))))))"

definition linear_mc_gate :: "matrix \<Rightarrow> circuit \<Rightarrow> int list \<Rightarrow> int \<Rightarrow> error + circuit" where
  "linear_mc_gate gate circuit controls target =
     bind_err (linear_mc_block gate controls target) (\<lambda>gate_circuit.
     circuit_compose circuit gate_circuit (controls @ [target]))"

section \<open>functions_oracles.py\<close>

text \<open>
  \<^verbatim>\<open>multi_control_z\<close> calls \<^verbatim>\<open>linear_mc_gate\<close> with keyword arguments only. Python
  binds each keyword to the parameter of that name and raises \<^verbatim>\<open>TypeError\<close> for a
  keyword that names no parameter, and for a parameter left without a value (none of
  the four has a default).
\<close>

datatype pyval = PyMatrix matrix | PyCircuit circuit | PyList "int list" | PyInt int

definition linear_mc_gate_params :: "string list" where
  "linear_mc_gate_params = [''gate'', ''circuit'', ''controls'', ''target'']"

definition call_linear_mc_gate :: "(string \<times> pyval) list \<Rightarrow> error + circuit" where
  "call_linear_mc_gate kwargs =
     (if list_all (\<lambda>kw. fst kw \<in> set linear_mc_gate_params) kwargs
         \<and> list_all (\<lambda>p. p \<in> fst ` set kwargs) linear_mc_gate_params
      then (case (map_of kwargs ''gate'', map_of kwargs ''circuit'',
                  map_of kwargs ''controls'', map_of kwargs ''target'') of
              (Some (PyMatrix gate), Some (PyCircuit circuit), Some (PyList controls), Some (PyInt target))
                \<Rightarrow> linear_mc_gate gate circuit controls target
            | _ \<Rightarrow> Inl TypeError)
      else Inl TypeError)"

definition multi_control_z :: "nat \<Rightarrow> error + circuit" where
  "multi_control_z nqubits =
     (let circuit = QuantumCircuit nqubits;
          xgate = ((1, 0), (0, - 1));
          controls = py_range 0 (int nqubits - 1);
          target = int nqubits - 1
      in call_linear_mc_gate
           [(''gate'', PyMatrix xgate), (''circuit'', PyCircuit circuit),
            (''controls'', PyList controls), (''targ'', PyInt target)])"

definition oracle_less_than :: "nat \<Rightarrow> nat \<Rightarrow> error + circuit" where
  "oracle_less_than number nqubits = oracle_less_than_body multi_control_z number nqubits"


text \<open>
  \<^verbatim>\<open>array_less_than\<close>: Python's \<^verbatim>\<open>[1] * k\<close> is empty for a negative \<open>k\<close>, as the
  truncating subtraction of \<open>nat\<close> makes \<open>replicate (N - number) 1\<close>.
  \<^verbatim>\<open>Diagonal(v)\<close> raises \<^verbatim>\<open>CircuitError\<close> unless the number of entries is a
  positive power of two (every entry here has modulus 1); the gate then acts on the
  binary logarithm of that many wires.
\<close>

definition array_less_than :: "nat \<Rightarrow> nat \<Rightarrow> int list" where
  "array_less_than number N = replicate number (- 1) @ replicate (N - number) 1"

definition diagonal_gate :: "int list \<Rightarrow> error + gate" where
  "diagonal_gate diag =
     (if 1 \<le> ilog2 (length diag) \<and> 2 ^ ilog2 (length diag) = length diag
      then Inr (Diagonal diag) else Inl CircuitError)"

definition diagonal_oracle_less_than :: "nat \<Rightarrow> nat \<Rightarrow> error + circuit" where
  "diagonal_oracle_less_than number nqubits =
     (let v = array_less_than number (2 ^ nqubits) in
      bind_err (diagonal_gate v) (\<lambda>diag_gate.
      (let diagonal = QuantumCircuit nqubits in
       append_gate diagonal diag_gate (py_range 0 (int nqubits)))))"

section \<open>What a circuit does to a state\<close>

text \<open>
  A state of the register gives every basis index its amplitude; wire \<open>q\<close> is bit \<open>q\<close>
  of the index (Qiskit's little-endian convention), so the most significant binary
  digit of a number lives on the highest wire. A gate with controls applies its
  2 by 2 matrix (row, column; \<open>False\<close> is 0) to the target wire on the part of the
  state where every control wire is 1. The matrix of a \<open>CUGate\<close> is the one numpy
  computes; it is the parameter \<open>umat\<close>. A \<open>Diagonal\<close> gate multiplies the amplitude
  of an index by the entry that the bits on its wires select.
\<close>

type_synonym state = "nat \<Rightarrow> complex"

type_synonym mat2 = "bool \<Rightarrow> bool \<Rightarrow> complex"

definition basis :: "nat \<Rightarrow> state" where
  "basis x = (\<lambda>y. if y = x then 1 else 0)"

definition x_matrix :: mat2 where
  "x_matrix = (\<lambda>r c. if r = c then 0 else 1)"

definition z_matrix :: mat2 where
  "z_matrix = (\<lambda>r c. if r = c then (if r then - 1 else 1) else 0)"

definition h_matrix :: mat2 where
  "h_matrix = (\<lambda>r c. (if r \<and> c then - 1 else 1) / complex_of_real (sqrt 2))"

definition rx_matrix :: "real \<Rightarrow> mat2" where
  "rx_matrix theta =
     (\<lambda>r c. if r = c then complex_of_real (cos (theta / 2))
            else - \<i> * complex_of_real (sin (theta / 2)))"

definition apply_controlled :: "nat list \<Rightarrow> mat2 \<Rightarrow> nat \<Rightarrow> state \<Rightarrow> state" where
  "apply_controlled controls m t \<psi> =
     (\<lambda>x. if list_all (bit x) controls
          then m (bit x t) False * \<psi> (unset_bit t x) + m (bit x t) True * \<psi> (set_bit t x)
          else \<psi> x)"

fun sub_index :: "nat list \<Rightarrow> nat \<Rightarrow> nat" where
  "sub_index [] x = 0"
| "sub_index (q # qs) x = (if bit x q then 1 else 0) + 2 * sub_index qs x"

fun apply_instr :: "(U_pow \<Rightarrow> mat2) \<Rightarrow> instr \<Rightarrow> state \<Rightarrow> state" where
  "apply_instr umat (XGate, qs) \<psi> = apply_controlled [] x_matrix (last qs) \<psi>"
| "apply_instr umat (ZGate, qs) \<psi> = apply_controlled [] z_matrix (last qs) \<psi>"
| "apply_instr umat (HGate, qs) \<psi> = apply_controlled [] h_matrix (last qs) \<psi>"
| "apply_instr umat (MCXGate k, qs) \<psi> = apply_controlled (butlast qs) x_matrix (last qs) \<psi>"
| "apply_instr umat (CUGate u, qs) \<psi> = apply_controlled (butlast qs) (umat u) (last qs) \<psi>"
| "apply_instr umat (CRXGate theta, qs) \<psi> =
     apply_controlled (butlast qs) (rx_matrix theta) (last qs) \<psi>"
| "apply_instr umat (Diagonal diag, qs) \<psi> =
     (\<lambda>x. complex_of_int (diag ! sub_index qs x) * \<psi> x)"

definition apply_circuit :: "(U_pow \<Rightarrow> mat2) \<Rightarrow> instr list \<Rightarrow> state \<Rightarrow> state" where
  "apply_circuit umat instrs \<psi> = fold (apply_instr umat) instrs \<psi>"

section \<open>Evaluation set-up\<close>

declare bit_length.simps [simp del] bin_digits.simps [simp del] dec_digits.simps [simp del]
declare ilog2.simps [simp del]

lemmas eval_defs =
  oracle_less_than_body_def to_binary_def rstrip0_def bin_digit_def circuit_x_def circuit_z_def
  circuit_h_def circuit_crx_def append_gate_def circuit_compose_def qubit_index_def bind_err_def
  QuantumCircuit_def py_range_def py_range_down_def pow2_def gate_U_pow_def is_unitary_def
  float_div_def Let_def
  linear_mc_block_def linear_mc_gate_def build_P_gates_def build_Q_gates_def crx_pass_def
  qubit_pairs_def

section \<open>Loops and appended gates\<close>

lemma bind_err_Inr: "bind_err (Inr v) f = f v"
  by (simp add: bind_err_def)





lemma append_gate_one:
  "0 \<le> q \<Longrightarrow> q < int (num_qubits circ) \<Longrightarrow> gate_num_qubits g = 1 \<Longrightarrow>
   append_gate circ g [q] = Inr (circ\<lparr>data := data circ @ [(g, [nat q])]\<rparr>)"
  by (simp add: append_gate_def qubit_index_def bind_err_def Let_def)


section \<open>Bits of a basis index\<close>

lemma set_bit_idem [simp]: "set_bit q (set_bit q (x::nat)) = set_bit q x"
  by (rule bit_eqI) (auto simp: bit_simps)

lemma unset_bit_idem [simp]: "unset_bit q (unset_bit q (x::nat)) = unset_bit q x"
  by (rule bit_eqI) (auto simp: bit_simps)

lemma set_unset_bit [simp]: "set_bit q (unset_bit q (x::nat)) = set_bit q x"
  by (rule bit_eqI) (auto simp: bit_simps)

lemma unset_set_bit [simp]: "unset_bit q (set_bit q (x::nat)) = unset_bit q x"
  by (rule bit_eqI) (auto simp: bit_simps)

lemma set_bit_same: "bit x q \<Longrightarrow> set_bit q (x::nat) = x"
  by (rule bit_eqI) (auto simp: bit_simps)

lemma unset_bit_same: "\<not> bit x q \<Longrightarrow> unset_bit q (x::nat) = x"
  by (rule bit_eqI) (auto simp: bit_simps)


section \<open>\<^verbatim>\<open>to_binary\<close> with too few bits\<close>

lemma bit_length_le_bin_digits: "bit_length n \<le> length (bin_digits n)"
proof (induction n rule: bin_digits.induct)
  case (1 n)
  show ?case
  proof (cases "n < 2")
    case True
    then have "n = 0 \<or> n = 1" by auto
    then show ?thesis
      by (auto simp: bit_length.simps [of 0] bit_length.simps [of 1] bit_length.simps [of "Suc 0"]
          bin_digits.simps [of 0] bin_digits.simps [of 1] bin_digits.simps [of "Suc 0"])
  next
    case False
    with 1 show ?thesis
      by (subst bit_length.simps, subst bin_digits.simps) simp
  qed
qed

text \<open>
  Claim C9. For a non-negative \<open>number\<close> and any \<open>nbits\<close> below its bit length,
  \<^verbatim>\<open>to_binary(number, nbits)\<close> raises nothing: it prints the one line
  \<^verbatim>\<open>Error, nbits must be larger than <len>.\<close>, where \<^verbatim>\<open><len>\<close> is the number of binary
  digits of \<open>number\<close>, and returns \<^verbatim>\<open>None\<close>.
\<close>

theorem to_binary_too_few_bits:
  "nbits < int (bit_length number) \<Longrightarrow>
   to_binary number (Some nbits) =
     ([''Error, nbits must be larger than '' @ dec_digits (length (bin_digits number)) @ ''.''],
      None)"
  using bit_length_le_bin_digits [of number] by (simp add: to_binary_def Let_def)

theorem to_binary_too_few_bits_witness:
  "(2::int) < int (bit_length 5) \<and>
   to_binary 5 (Some 2) = ([''Error, nbits must be larger than 3.''], None)"
proof -
  have h: "(2::int) < int (bit_length 5)" by code_simp
  have d: "dec_digits (length (bin_digits 5)) = ''3''" by code_simp
  show ?thesis using h to_binary_too_few_bits [OF h] by (simp add: d)
qed

section \<open>The threshold 0\<close>

lemma rstrip0_zeros: "rstrip0 (replicate k (CHR ''0'')) = []"
  by (simp add: rstrip0_def)

lemma to_binary_zero:
  "1 \<le> n \<Longrightarrow> snd (to_binary 0 (Some (int n))) = Some (replicate n (CHR ''0''))"
  by (cases n)
    (simp_all add: to_binary_def bin_digits.simps [of 0] bin_digit_def replicate_append_same)

lemma oracle_less_than_body_zero:
  "1 \<le> nqubits \<Longrightarrow> oracle_less_than_body mcz 0 nqubits = Inl IndexError"
  by (simp add: oracle_less_than_body_def to_binary_zero rstrip0_zeros Let_def)

text \<open>
  Claim C10. For \<open>nqubits \<ge> 1\<close>, \<^verbatim>\<open>oracle_less_than(0, nqubits)\<close> returns no circuit: the
  padded binary string is all zeros, stripping the trailing zeros leaves the empty
  string, and reading its first character raises \<^verbatim>\<open>IndexError\<close>. This holds for the
  function of functions_oracles.py and for the one of code_oracle.py.
\<close>

theorem oracle_less_than_zero_raises:
  "1 \<le> nqubits \<Longrightarrow>
   oracle_less_than 0 nqubits = Inl IndexError \<and> oracle_less_than_mcx 0 nqubits = Inl IndexError"
  by (simp add: oracle_less_than_def oracle_less_than_mcx_def oracle_less_than_body_zero)

theorem oracle_less_than_zero_raises_witness:
  "(1::nat) \<le> 3 \<and> oracle_less_than 0 3 = Inl IndexError
   \<and> oracle_less_than_mcx 0 3 = Inl IndexError"
  using oracle_less_than_zero_raises [of 3] by simp

section \<open>\<^verbatim>\<open>multi_control_z\<close> of functions_oracles.py\<close>

text \<open>
  Claim C3 says that \<^verbatim>\<open>multi_control_z(nqubits)\<close> returns the circuit that
  \<^verbatim>\<open>linear_mc_gate\<close> builds for the Pauli-Z matrix. The call passes the keyword
  \<^verbatim>\<open>targ\<close>, and \<^verbatim>\<open>linear_mc_gate\<close> has no parameter of that name (its fourth is
  \<^verbatim>\<open>target\<close>): for every \<open>nqubits\<close> the call raises \<^verbatim>\<open>TypeError\<close> before any gate is
  appended.
\<close>

theorem multi_control_z_raises: "multi_control_z nqubits = Inl TypeError"
  by (simp add: multi_control_z_def call_linear_mc_gate_def linear_mc_gate_params_def Let_def)

section \<open>The less-than oracle of functions_oracles.py\<close>

text \<open>
  Claim C1 says that for \<open>0 < N < 2^nqubits\<close> the circuit of
  \<^verbatim>\<open>oracle_less_than(N, nqubits)\<close> gives basis state \<open>x\<close> the phase \<open>-1\<close> when \<open>x < N\<close>
  and \<open>+1\<close> otherwise. In functions_oracles.py the function builds no circuit as soon
  as the stripped binary string of \<open>N\<close> has a digit 1 after the first one: it then
  calls \<^verbatim>\<open>multi_control_z\<close>, which raises \<^verbatim>\<open>TypeError\<close>. That is so for
  \<open>N = 3\<close> on 2 wires and for \<open>N = 42\<close> on 6 wires, the call of examples_oracles.py.
\<close>

theorem oracle_less_than_type_error:
  "oracle_less_than 3 2 = Inl TypeError \<and> oracle_less_than 42 6 = Inl TypeError"
proof -
  have b3: "bin_digits 3 = ''11''" by code_simp
  have b42: "bin_digits 42 = ''101010''" by code_simp
  show ?thesis
    by (simp add: oracle_less_than_def multi_control_z_def call_linear_mc_gate_def
        linear_mc_gate_params_def eval_defs b3 b42)
qed

section \<open>The target wire inside \<^verbatim>\<open>linear_mc_gate\<close>\<close>

text \<open>
  Claim C4 says that step 2 of \<^verbatim>\<open>linear_mc_gate\<close> puts its controlled gate on wire 0
  and the last wire of the fresh block, whatever the caller's target index is. The
  code composes at \<^verbatim>\<open>[0, target]\<close>, with the caller's index: for a unitary \<open>U\<close>, controls \<open>[0, 2]\<close>
  and target \<open>1\<close> the block has three wires and the gate of step 2 (the second
  instruction) lands on wires 0 and 1, wire 1 being a control wire of the block and 2
  its last wire; for controls \<open>[0, 1]\<close> and target \<open>5\<close> the index is outside the block
  and the call raises \<^verbatim>\<open>CircuitError\<close>. \<^verbatim>\<open>_build_P_gates\<close> targets \<^verbatim>\<open>nqubits-1\<close>.
\<close>

theorem linear_mc_block_target_wire:
  "is_unitary gate \<Longrightarrow>
   linear_mc_block gate [0, 2] 1 =
     Inr \<lparr>num_qubits = 3,
          data = [(CUGate \<lparr>pow_Ugate = gate, pow_denominator_exponent = 2, pow_inv = False\<rparr>,
                   [1, 2]),
                  (CUGate \<lparr>pow_Ugate = gate, pow_denominator_exponent = 2, pow_inv = False\<rparr>,
                   [0, 1]),
                  (CRXGate pi, [0, 1]),
                  (CUGate \<lparr>pow_Ugate = gate, pow_denominator_exponent = 2, pow_inv = True\<rparr>,
                   [1, 2]),
                  (CRXGate (- pi), [0, 1])]\<rparr>
   \<and> linear_mc_block gate [0, 1] 5 = Inl CircuitError"
  by (simp add: linear_mc_block_def build_P_gates_def build_Q_gates_def crx_pass_def
      qubit_pairs_def gate_U_pow_def float_div_def circuit_crx_def append_gate_def
      qubit_index_def bind_err_def QuantumCircuit_def py_range_def py_range_down_def pow2_def
      Let_def upt_rec)

theorem linear_mc_block_target_wire_witness:
  "is_unitary ((1, 0), (0, - 1))
   \<and> linear_mc_block ((1, 0), (0, - 1)) [0, 2] 1 =
     Inr \<lparr>num_qubits = 3,
          data = [(CUGate \<lparr>pow_Ugate = ((1, 0), (0, - 1)), pow_denominator_exponent = 2,
                           pow_inv = False\<rparr>, [1, 2]),
                  (CUGate \<lparr>pow_Ugate = ((1, 0), (0, - 1)), pow_denominator_exponent = 2,
                           pow_inv = False\<rparr>, [0, 1]),
                  (CRXGate pi, [0, 1]),
                  (CUGate \<lparr>pow_Ugate = ((1, 0), (0, - 1)), pow_denominator_exponent = 2,
                           pow_inv = True\<rparr>, [1, 2]),
                  (CRXGate (- pi), [0, 1])]\<rparr>
   \<and> linear_mc_block ((1, 0), (0, - 1)) [0, 1] 5 = Inl CircuitError"
proof -
  have u: "is_unitary ((1, 0), (0, - 1))" by (simp add: is_unitary_def)
  from linear_mc_block_target_wire [OF u] u show ?thesis by (intro conjI) simp_all
qed

section \<open>The greater-than oracle\<close>






section \<open>The P ladder\<close>

lemma for_each_appends_aux:
  "\<forall>x\<in>set xs. \<forall>c. num_qubits c = w \<longrightarrow> body x c = Inr (c\<lparr>data := data c @ [f x]\<rparr>) \<Longrightarrow>
   num_qubits c = w \<Longrightarrow> for_each body xs c = Inr (c\<lparr>data := data c @ map f xs\<rparr>)"
proof (induction xs arbitrary: c)
  case Nil
  show ?case by simp
next
  case (Cons x xs)
  have hx: "\<forall>c. num_qubits c = w \<longrightarrow> body x c = Inr (c\<lparr>data := data c @ [f x]\<rparr>)"
    by (rule bspec [OF Cons.prems(1)]) simp
  have a: "\<forall>y\<in>set xs. \<forall>c. num_qubits c = w \<longrightarrow> body y c = Inr (c\<lparr>data := data c @ [f y]\<rparr>)"
  proof (intro ballI)
    fix y assume "y \<in> set xs"
    then have "y \<in> set (x # xs)" by simp
    from bspec [OF Cons.prems(1) this]
    show "\<forall>c. num_qubits c = w \<longrightarrow> body y c = Inr (c\<lparr>data := data c @ [f y]\<rparr>)" .
  qed
  let ?c1 = "c\<lparr>data := data c @ [f x]\<rparr>"
  have s1: "body x c = Inr ?c1" by (rule hx [rule_format, OF Cons.prems(2)])
  have w1: "num_qubits ?c1 = w" using Cons.prems(2) by simp
  have "for_each body xs ?c1 = Inr (?c1\<lparr>data := data ?c1 @ map f xs\<rparr>)"
    by (rule Cons.IH [OF a w1])
  then show ?case by (simp add: s1 bind_err_def)
qed

lemma for_each_appends:
  assumes "\<And>x c. x \<in> set xs \<Longrightarrow> num_qubits c = w \<Longrightarrow> body x c = Inr (c\<lparr>data := data c @ [f x]\<rparr>)"
  shows "num_qubits c = w \<Longrightarrow> for_each body xs c = Inr (c\<lparr>data := data c @ map f xs\<rparr>)"
proof -
  have "\<forall>x\<in>set xs. \<forall>c. num_qubits c = w \<longrightarrow> body x c = Inr (c\<lparr>data := data c @ [f x]\<rparr>)"
    by (intro ballI allI impI) (rule assms)
  then show "num_qubits c = w \<Longrightarrow> for_each body xs c = Inr (c\<lparr>data := data c @ map f xs\<rparr>)"
    by (rule for_each_appends_aux)
qed

lemma append_gate_two:
  "0 \<le> a \<Longrightarrow> a < int (num_qubits circ) \<Longrightarrow> 0 \<le> b \<Longrightarrow> b < int (num_qubits circ) \<Longrightarrow> a \<noteq> b \<Longrightarrow>
   gate_num_qubits g = 2 \<Longrightarrow>
   append_gate circ g [a, b] = Inr (circ\<lparr>data := data circ @ [(g, [nat a, nat b])]\<rparr>)"
  by (simp add: append_gate_def qubit_index_def bind_err_def Let_def)

lemma py_range_nat: "py_range (int a) (int b) = map int [a..<b]"
  by (rule nth_equalityI) (auto simp: py_range_def)

lemma py_range_down_nat: "py_range_down (int b - 1) (int a - 1) = map int (rev [a..<b])"
  by (rule nth_equalityI) (auto simp: py_range_down_def rev_nth)

lemma pow2_nat: "pow2 (int k) = 2 ^ k"
  by (simp add: pow2_def)

lemma gate_U_pow_unitary:
  "is_unitary Ugate \<Longrightarrow>
   gate_U_pow Ugate e i = Inr \<lparr>pow_Ugate = Ugate, pow_denominator_exponent = e, pow_inv = i\<rparr>"
  by (simp add: gate_U_pow_def)

lemma is_unitary_Z: "is_unitary ((1, 0), (0, - 1))"
  by (simp add: is_unitary_def)

lemma build_P_gates_list:
  assumes u: "is_unitary gate" and w: "n \<le> num_qubits circuit" and ks: "set ks \<subseteq> {1..<n - 1}"
  shows "for_each (\<lambda>k circuit.
          (let exponent = pow2 (int n - 1 - k) in
           bind_err (gate_U_pow gate exponent i) (\<lambda>gateU.
           append_gate circuit (CUGate gateU) [k, int n - 1])))
        (map int ks) circuit =
      Inr (circuit\<lparr>data := data circuit @
            map (\<lambda>k. (CUGate \<lparr>pow_Ugate = gate, pow_denominator_exponent = 2 ^ (n - 1 - k),
                               pow_inv = i\<rparr>, [k, n - 1])) ks\<rparr>)"
proof -
  let ?f = "\<lambda>k. (CUGate \<lparr>pow_Ugate = gate, pow_denominator_exponent = pow2 (int n - 1 - k),
                          pow_inv = i\<rparr>, [nat k, nat (int n - 1)])"
  have "for_each (\<lambda>k circuit.
          (let exponent = pow2 (int n - 1 - k) in
           bind_err (gate_U_pow gate exponent i) (\<lambda>gateU.
           append_gate circuit (CUGate gateU) [k, int n - 1])))
        (map int ks) circuit = Inr (circuit\<lparr>data := data circuit @ map ?f (map int ks)\<rparr>)"
  proof (rule for_each_appends [where w = "num_qubits circuit"])
    fix x and c :: circuit
    assume x: "x \<in> set (map int ks)" and c: "num_qubits c = num_qubits circuit"
    from x ks obtain k where k: "x = int k" "1 \<le> k" "k < n - 1" by auto
    show "(let exponent = pow2 (int n - 1 - x) in
           bind_err (gate_U_pow gate exponent i) (\<lambda>gateU.
           append_gate c (CUGate gateU) [x, int n - 1])) = Inr (c\<lparr>data := data c @ [?f x]\<rparr>)"
      using k w c by (simp add: Let_def gate_U_pow_unitary [OF u] bind_err_def append_gate_two)
  qed simp
  moreover have "map ?f (map int ks) =
      map (\<lambda>k. (CUGate \<lparr>pow_Ugate = gate, pow_denominator_exponent = 2 ^ (n - 1 - k),
                         pow_inv = i\<rparr>, [k, n - 1])) ks"
    unfolding map_map o_def
  proof (rule map_cong [OF refl])
    fix k assume "k \<in> set ks"
    with ks have k: "1 \<le> k" "k < n - 1" by auto
    then have e: "int n - 1 - int k = int (n - 1 - k)" by linarith
    have "nat (int n - 1) = n - 1" by simp
    then show "?f (int k) = (CUGate \<lparr>pow_Ugate = gate, pow_denominator_exponent = 2 ^ (n - 1 - k),
                                     pow_inv = i\<rparr>, [k, n - 1])"
      by (simp add: e pow2_nat del: of_nat_diff)
  qed
  ultimately show ?thesis by simp
qed

lemma build_P_gates_explicit:
  assumes u: "is_unitary gate" and w: "n \<le> num_qubits circuit"
  shows "build_P_gates gate (int n) circuit i =
     Inr (circuit\<lparr>data := data circuit @
            map (\<lambda>k. (CUGate \<lparr>pow_Ugate = gate, pow_denominator_exponent = 2 ^ (n - 1 - k),
                               pow_inv = i\<rparr>, [k, n - 1]))
                (if i then [1..<n - 1] else rev [1..<n - 1])\<rparr>)"
proof -
  have up: "py_range 1 (int n - 1) = map int [1..<n - 1]"
    using py_range_nat [of 1 "n - 1"] by (cases "n = 0") (simp_all add: py_range_def of_nat_diff)
  have down: "py_range_down (int n - 2) 0 = map int (rev [1..<n - 1])"
    using py_range_down_nat [of "n - 1" 1]
    by (cases "n = 0") (simp_all add: py_range_down_def of_nat_diff)
  show ?thesis
  proof (cases i)
    case True
    then show ?thesis
      unfolding build_P_gates_def Let_def up
      using build_P_gates_list [OF u w, of "[1..<n - 1]" True, unfolded Let_def] by simp
  next
    case False
    then show ?thesis
      unfolding build_P_gates_def Let_def down
      using build_P_gates_list [OF u w, of "rev [1..<n - 1]" False, unfolded Let_def] by simp
  qed
qed



section \<open>The Q ladder\<close>

lemma py_range_Suc: "py_range 0 (int (Suc m)) = py_range 0 (int m) @ [int m]"
  by (simp add: py_range_def nat_add_distrib)

lemma set_py_range: "set (py_range a b) = {a..<b}"
proof -
  have "set (py_range a b) = (\<lambda>i. a + int i) ` {0..<nat (b - a)}"
    by (simp add: py_range_def)
  also have "\<dots> = {a..<b}"
  proof (rule set_eqI)
    fix x
    show "x \<in> (\<lambda>i. a + int i) ` {0..<nat (b - a)} \<longleftrightarrow> x \<in> {a..<b}"
    proof
      assume "x \<in> (\<lambda>i. a + int i) ` {0..<nat (b - a)}"
      then show "x \<in> {a..<b}" by auto
    next
      assume x: "x \<in> {a..<b}"
      then have "x = a + int (nat (x - a))" "nat (x - a) \<in> {0..<nat (b - a)}" by auto
      then show "x \<in> (\<lambda>i. a + int i) ` {0..<nat (b - a)}" by (rule image_eqI)
    qed
  qed
  finally show ?thesis .
qed


lemma length_py_range: "length (py_range a b) = nat (b - a)"
  by (simp add: py_range_def)

lemma qubit_pairs_Suc:
  "qubit_pairs s (int (Suc m)) = qubit_pairs s (int m) @ map (\<lambda>control. (control, int m)) (py_range s (int m))"
  unfolding qubit_pairs_def py_range_Suc by simp

lemma qubit_pairs_0: "qubit_pairs s 0 = []"
  by (simp add: qubit_pairs_def py_range_def)

lemma set_qubit_pairs_nat:
  "set (qubit_pairs s (int m)) = {(c, t). s \<le> c \<and> c < t \<and> 0 \<le> t \<and> t < int m}"
proof (induction m)
  case 0
  show ?case by (auto simp: qubit_pairs_def py_range_def)
next
  case (Suc m)
  show ?case
    unfolding qubit_pairs_Suc set_append Suc.IH set_map set_py_range
    by (auto simp: image_iff)
qed


lemma length_qubit_pairs_Suc:
  "length (qubit_pairs s (int (Suc m))) = length (qubit_pairs s (int m)) + nat (int m - s)"
  unfolding qubit_pairs_Suc by (simp add: length_py_range)

lemma length_qubit_pairs_both:
  "length (qubit_pairs 0 (int m)) + length (qubit_pairs 1 (int m)) = (m - 1) * (m - 1)"
proof (induction m)
  case 0
  show ?case by (simp add: qubit_pairs_0)
next
  case (Suc m)
  have "length (qubit_pairs 0 (int (Suc m))) + length (qubit_pairs 1 (int (Suc m)))
        = (length (qubit_pairs 0 (int m)) + length (qubit_pairs 1 (int m)))
          + (nat (int m - 0) + nat (int m - 1))"
    by (simp only: length_qubit_pairs_Suc)
  also have "\<dots> = (m - 1) * (m - 1) + (m + (m - 1))"
    using Suc.IH by simp
  also have "\<dots> = (Suc m - 1) * (Suc m - 1)"
    by (cases m) (simp_all add: algebra_simps)
  finally show ?case .
qed

lemma float_div_pow2:
  assumes "0 \<le> e" and "e < 1024"
  shows "float_div x (pow2 e) = Inr (x / 2 ^ nat e)"
proof -
  have "nat e < 1024" using assms by simp
  then have "(2::real) ^ nat e < 2 ^ 1024" by (rule power_strict_increasing) simp
  then show ?thesis using assms by (simp add: float_div_def pow2_def)
qed


lemma crx_pass_appends:
  assumes "\<forall>p\<in>set pairs. 0 \<le> fst p \<and> fst p < snd p \<and> snd p < int (num_qubits circuit)
             \<and> snd p \<le> 1024"
  shows "crx_pass numerator pairs circuit =
     Inr (circuit\<lparr>data := data circuit @
        map (\<lambda>p. (CRXGate (numerator / 2 ^ nat (snd p - fst p - (if fst p = 0 then 1 else 0))),
                   [nat (fst p), nat (snd p)])) pairs\<rparr>)"
  unfolding crx_pass_def
proof (rule for_each_appends [where w = "num_qubits circuit"])
  fix x :: "int \<times> int" and c :: circuit
  assume x: "x \<in> set pairs" and c: "num_qubits c = num_qubits circuit"
  from bspec [OF assms x] have r: "0 \<le> fst x" "fst x < snd x" "snd x < int (num_qubits circuit)"
    "snd x \<le> 1024"
    by simp_all
  let ?e = "if fst x = 0 then snd x - fst x - 1 else snd x - fst x"
  have e0: "0 \<le> ?e" "?e < 1024" using r by auto
  have n: "nat ?e = nat (snd x - fst x - (if fst x = 0 then 1 else 0))" by simp
  have e: "float_div numerator (pow2 ?e)
           = Inr (numerator / 2 ^ nat (snd x - fst x - (if fst x = 0 then 1 else 0)))"
    unfolding float_div_pow2 [OF e0] n ..
  have a: "append_gate c (CRXGate th) [fst x, snd x]
             = Inr (c\<lparr>data := data c @ [(CRXGate th, [nat (fst x), nat (snd x)])]\<rparr>)" for th
    using r c by (intro append_gate_two) simp_all
  show "(let exponent = snd x - fst x;
             exponent = (if fst x = 0 then exponent - 1 else exponent);
             param_turn = pow2 exponent
         in bind_err (float_div numerator param_turn) (\<lambda>theta.
            circuit_crx c theta (fst x) (snd x))) =
        Inr (c\<lparr>data := data c @
          [(CRXGate (numerator / 2 ^ nat (snd x - fst x - (if fst x = 0 then 1 else 0))),
            [nat (fst x), nat (snd x)])]\<rparr>)"
    unfolding Let_def e bind_err_Inr circuit_crx_def by (rule a)
qed simp

lemma build_Q_gates_explicit:
  assumes "nat nqubits \<le> num_qubits circuit" and small: "nqubits \<le> 1025"
  shows "build_Q_gates nqubits circuit i =
     Inr (circuit\<lparr>data := data circuit @
        map (\<lambda>p. (CRXGate (pi / 2 ^ nat (snd p - fst p - (if fst p = 0 then 1 else 0))),
                   [nat (fst p), nat (snd p)]))
          (sort_key (\<lambda>k. - (fst k + snd k)) (qubit_pairs (if i then 1 else 0) nqubits)) @
        map (\<lambda>p. (CRXGate (- pi / 2 ^ nat (snd p - fst p - (if fst p = 0 then 1 else 0))),
                   [nat (fst p), nat (snd p)]))
          (sort_key (\<lambda>k. fst k + snd k) (qubit_pairs (if i then 0 else 1) nqubits))\<rparr>)"
proof -
  have rng: "\<forall>p\<in>set (qubit_pairs s nqubits). 0 \<le> fst p \<and> fst p < snd p \<and> snd p < int (num_qubits c)
               \<and> snd p \<le> 1024"
    if "0 \<le> s" "num_qubits c = num_qubits circuit" for s and c :: circuit
  proof (cases "0 \<le> nqubits")
    case True
    then have "nqubits = int (nat nqubits)" by simp
    then have "set (qubit_pairs s nqubits) = {(c, t). s \<le> c \<and> c < t \<and> 0 \<le> t \<and> t < nqubits}"
      using set_qubit_pairs_nat [of s "nat nqubits"] by simp
    then show ?thesis using that assms by auto
  next
    case False
    then have "qubit_pairs s nqubits = []" by (simp add: qubit_pairs_def py_range_def)
    then show ?thesis by simp
  qed
  let ?L1 = "sort_key (\<lambda>k. - (fst k + snd k)) (qubit_pairs (if i then 1 else 0) nqubits)"
  let ?L2 = "sort_key (\<lambda>k. fst k + snd k) (qubit_pairs (if i then 0 else 1) nqubits)"
  let ?f = "\<lambda>numerator p. (CRXGate (numerator / 2 ^ nat (snd p - fst p - (if fst p = 0 then 1 else 0))),
                   [nat (fst p), nat (snd p)])"
  let ?c1 = "circuit\<lparr>data := data circuit @ map (?f pi) ?L1\<rparr>"
  have p1: "crx_pass pi ?L1 circuit = Inr ?c1"
    by (rule crx_pass_appends) (use rng [of "if i then 1 else 0" circuit] in simp)
  have "crx_pass (- pi) ?L2 ?c1 = Inr (?c1\<lparr>data := data ?c1 @ map (?f (- pi)) ?L2\<rparr>)"
    by (rule crx_pass_appends) (use rng [of "if i then 0 else 1" ?c1] in simp)
  also have "?c1\<lparr>data := data ?c1 @ map (?f (- pi)) ?L2\<rparr>
      = circuit\<lparr>data := data circuit @ map (?f pi) ?L1 @ map (?f (- pi)) ?L2\<rparr>"
    by simp
  finally have p2: "crx_pass (- pi) ?L2 ?c1
      = Inr (circuit\<lparr>data := data circuit @ map (?f pi) ?L1 @ map (?f (- pi)) ?L2\<rparr>)" .
  show ?thesis
    unfolding build_Q_gates_def Let_def p1 by (simp only: bind_err_def sum.case p2)
qed








section \<open>The number of gates of \<^verbatim>\<open>linear_mc_gate\<close>\<close>

lemma build_P_gates_extends:
  assumes "is_unitary gate" and "n \<le> num_qubits circuit"
  shows "\<exists>added. build_P_gates gate (int n) circuit i = Inr (circuit\<lparr>data := data circuit @ added\<rparr>)
           \<and> length added = n - 2 \<and> list_all (\<lambda>ins. length (snd ins) = 2) added"
proof -
  let ?added = "map (\<lambda>k. (CUGate \<lparr>pow_Ugate = gate, pow_denominator_exponent = 2 ^ (n - 1 - k),
                                  pow_inv = i\<rparr>, [k, n - 1]))
                (if i then [1..<n - 1] else rev [1..<n - 1])"
  have "build_P_gates gate (int n) circuit i = Inr (circuit\<lparr>data := data circuit @ ?added\<rparr>)"
    by (rule build_P_gates_explicit [OF assms])
  moreover have "length ?added = n - 2" by simp
  moreover have "list_all (\<lambda>ins. length (snd ins) = 2) ?added" by (simp add: list_all_iff)
  ultimately show ?thesis by blast
qed

lemma build_Q_gates_extends:
  assumes "nat m \<le> num_qubits circuit" and "m \<le> 1025"
  shows "\<exists>added. build_Q_gates m circuit i = Inr (circuit\<lparr>data := data circuit @ added\<rparr>)
           \<and> length added = length (qubit_pairs 0 m) + length (qubit_pairs 1 m)
           \<and> list_all (\<lambda>ins. length (snd ins) = 2) added"
proof -
  let ?added = "map (\<lambda>p. (CRXGate (pi / 2 ^ nat (snd p - fst p - (if fst p = 0 then 1 else 0))),
                   [nat (fst p), nat (snd p)]))
          (sort_key (\<lambda>k. - (fst k + snd k)) (qubit_pairs (if i then 1 else 0) m)) @
        map (\<lambda>p. (CRXGate (- pi / 2 ^ nat (snd p - fst p - (if fst p = 0 then 1 else 0))),
                   [nat (fst p), nat (snd p)]))
          (sort_key (\<lambda>k. fst k + snd k) (qubit_pairs (if i then 0 else 1) m))"
  have "build_Q_gates m circuit i = Inr (circuit\<lparr>data := data circuit @ ?added\<rparr>)"
    by (rule build_Q_gates_explicit [OF assms])
  moreover have "length ?added = length (qubit_pairs 0 m) + length (qubit_pairs 1 m)"
    by (cases i) simp_all
  moreover have "list_all (\<lambda>ins. length (snd ins) = 2) ?added"
    by (cases i) (auto simp: list_all_iff)
  ultimately show ?thesis by blast
qed

lemma linear_mc_block_count:
  assumes u: "is_unitary gate"
    and c: "controls \<noteq> []" and small: "length controls \<le> 1025"
    and t: "1 \<le> target" "target \<le> int (length controls)"
  shows "\<exists>blk. linear_mc_block gate controls target = Inr blk
           \<and> num_qubits blk = length controls + 1
           \<and> length (data blk) = 2 * length controls * (length controls - 1) + 1
           \<and> list_all (\<lambda>ins. length (snd ins) = 2) (data blk)"
proof -
  define n where "n = length controls + 1"
  let ?two = "list_all (\<lambda>ins. length (snd ins) = 2)"
  let ?c0 = "QuantumCircuit n"
  have n2: "2 \<le> n" using c by (cases controls) (simp_all add: n_def)
  have sm: "int n - 1 \<le> 1025" using small by (simp add: n_def)
  have w0: "n \<le> num_qubits ?c0" by (simp add: QuantumCircuit_def)
  obtain a1 where p1: "build_P_gates gate (int n) ?c0 False = Inr (?c0\<lparr>data := data ?c0 @ a1\<rparr>)"
    and l1: "length a1 = n - 2" and t1: "?two a1"
    using build_P_gates_extends [OF u w0] by blast
  let ?c1 = "?c0\<lparr>data := data ?c0 @ a1\<rparr>"
  let ?u = "\<lparr>pow_Ugate = gate, pow_denominator_exponent = pow2 (int n - 2), pow_inv = False\<rparr>"
  let ?g = "(CUGate ?u, [0, nat target])"
  let ?c2 = "?c1\<lparr>data := data ?c1 @ [?g]\<rparr>"
  have g2: "gate_U_pow gate (pow2 (int n - 2)) False = Inr ?u"
    by (rule gate_U_pow_unitary [OF u])
  have p2: "append_gate ?c1 (CUGate ?u) [0, target] = Inr ?c2"
    using append_gate_two [of 0 ?c1 target "CUGate ?u"] t
    by (simp add: QuantumCircuit_def n_def)
  have w2: "nat (int n - 1) \<le> num_qubits ?c2" by (simp add: QuantumCircuit_def)
  obtain a3 where p3: "build_Q_gates (int n - 1) ?c2 False = Inr (?c2\<lparr>data := data ?c2 @ a3\<rparr>)"
    and l3: "length a3 = length (qubit_pairs 0 (int n - 1)) + length (qubit_pairs 1 (int n - 1))"
    and t3: "?two a3"
    using build_Q_gates_extends [OF w2 sm] by blast
  let ?c3 = "?c2\<lparr>data := data ?c2 @ a3\<rparr>"
  have w3: "n \<le> num_qubits ?c3" by (simp add: QuantumCircuit_def)
  obtain a4 where p4: "build_P_gates gate (int n) ?c3 True = Inr (?c3\<lparr>data := data ?c3 @ a4\<rparr>)"
    and l4: "length a4 = n - 2" and t4: "?two a4"
    using build_P_gates_extends [OF u w3] by blast
  let ?c4 = "?c3\<lparr>data := data ?c3 @ a4\<rparr>"
  have w4: "nat (int n - 1) \<le> num_qubits ?c4" by (simp add: QuantumCircuit_def)
  obtain a5 where p5: "build_Q_gates (int n - 1) ?c4 True = Inr (?c4\<lparr>data := data ?c4 @ a5\<rparr>)"
    and l5: "length a5 = length (qubit_pairs 0 (int n - 1)) + length (qubit_pairs 1 (int n - 1))"
    and t5: "?two a5"
    using build_Q_gates_extends [OF w4 sm] by blast
  let ?c5 = "?c4\<lparr>data := data ?c4 @ a5\<rparr>"
  have nn: "int (length controls) + 1 = int n" "nat (int n) = n" "int n - 1 = int (n - 1)"
    using n2 by (simp_all add: n_def)
  have run: "linear_mc_block gate controls target = Inr ?c5"
    unfolding linear_mc_block_def Let_def nn(1) nn(2) p1
    by (simp only: bind_err_def sum.case g2 p2 p3 p4 p5)
  have q: "length (qubit_pairs 0 (int n - 1)) + length (qubit_pairs 1 (int n - 1)) = (n - 2) * (n - 2)"
    unfolding nn(3) length_qubit_pairs_both by (simp add: numeral_2_eq_2)
  obtain k where k: "n = k + 2" using n2 by (metis add.commute le_Suc_ex)
  have "length (data ?c5) = length a1 + 1 + length a3 + length a4 + length a5"
    by (simp add: QuantumCircuit_def)
  also have "\<dots> = (n - 2) + 1 + (n - 2) * (n - 2) + (n - 2) + (n - 2) * (n - 2)"
    by (simp only: l1 l3 l4 l5 q)
  also have "\<dots> = 2 * (n - 1) * (n - 2) + 1"
    by (simp add: k algebra_simps)
  finally have len: "length (data ?c5) = 2 * length controls * (length controls - 1) + 1"
    by (simp add: n_def)
  have two: "?two (data ?c5)"
    by (simp add: QuantumCircuit_def t1 t3 t4 t5)
  have nq: "num_qubits ?c5 = length controls + 1" by (simp add: QuantumCircuit_def n_def)
  from run nq len two show ?thesis by blast
qed

lemma qubit_indices_in_range:
  "list_all (\<lambda>q. 0 \<le> q \<and> q < int (num_qubits circ)) qs \<Longrightarrow> qubit_indices circ qs = Inr (map nat qs)"
  by (induction qs) (simp_all add: qubit_index_def bind_err_def Let_def)

lemma distinct_map_nat:
  "list_all (\<lambda>q. (0::int) \<le> q) qs \<Longrightarrow> distinct qs \<Longrightarrow> distinct (map nat qs)"
proof -
  assume nonneg: "list_all (\<lambda>q. (0::int) \<le> q) qs" and d: "distinct qs"
  have "inj_on nat (set qs)"
  proof (rule inj_onI)
    fix x y assume x: "x \<in> set qs" and y: "y \<in> set qs" and e: "nat x = nat y"
    from nonneg x y have "0 \<le> x" "0 \<le> y" by (simp_all add: list_all_iff)
    moreover from e have "int (nat x) = int (nat y)" by simp
    ultimately show "x = y" by simp
  qed
  with d show ?thesis by (simp add: distinct_map)
qed

lemma linear_mc_gate_appends:
  assumes u: "is_unitary gate"
    and c: "controls \<noteq> []" and small: "length controls \<le> 1025"
    and d: "distinct (controls @ [target])"
    and r: "list_all (\<lambda>q. 0 \<le> q \<and> q < int (num_qubits circuit)) (controls @ [target])"
    and t: "1 \<le> target" "target \<le> int (length controls)"
  shows "\<exists>circuit'. linear_mc_gate gate circuit controls target = Inr circuit'
           \<and> length (data circuit') =
               length (data circuit) + (2 * length controls * (length controls - 1) + 1)
           \<and> list_all (\<lambda>ins. length (snd ins) = 2) (drop (length (data circuit)) (data circuit'))"
proof -
  obtain blk where b: "linear_mc_block gate controls target = Inr blk"
    and nq: "num_qubits blk = length controls + 1"
    and len: "length (data blk) = 2 * length controls * (length controls - 1) + 1"
    and two: "list_all (\<lambda>ins. length (snd ins) = 2) (data blk)"
    using linear_mc_block_count [OF u c small t] by blast
  let ?ws = "map nat (controls @ [target])"
  let ?added = "map (\<lambda>(g, vs). (g, map (\<lambda>v. ?ws ! v) vs)) (data blk)"
  have qi: "qubit_indices circuit (controls @ [target]) = Inr ?ws"
    by (rule qubit_indices_in_range [OF r])
  have nonneg: "list_all (\<lambda>q. (0::int) \<le> q) (controls @ [target])"
    using r by (simp add: list_all_iff)
  have dist: "distinct ?ws" by (rule distinct_map_nat [OF nonneg d])
  have comp: "circuit_compose circuit blk (controls @ [target]) = Inr (circuit\<lparr>data := data circuit @ ?added\<rparr>)"
    unfolding circuit_compose_def qi using dist nq by (simp add: bind_err_def)
  have run: "linear_mc_gate gate circuit controls target = Inr (circuit\<lparr>data := data circuit @ ?added\<rparr>)"
    unfolding linear_mc_gate_def b by (simp add: bind_err_def comp)
  have "list_all (\<lambda>ins. length (snd ins) = 2) ?added"
    using two by (auto simp: list_all_iff)
  with run len show ?thesis by simp
qed

lemma linear_mc_gate_Z_count:
  assumes c: "1 \<le> c" "c \<le> 1025"
  shows "\<exists>circuit'. linear_mc_gate ((1, 0), (0, - 1)) (QuantumCircuit (c + 1))
                       (py_range 0 (int c)) (int c) = Inr circuit'
           \<and> length (data circuit') = 2 * c * (c - 1) + 1"
proof -
  have ctl: "py_range 0 (int c) = map int [0..<c]" using py_range_nat [of 0 c] by simp
  have c1: "py_range 0 (int c) \<noteq> []" unfolding ctl using c by simp
  have c2: "distinct (py_range 0 (int c) @ [int c])"
    by (auto simp: ctl distinct_map inj_on_def)
  have c3: "list_all (\<lambda>q. 0 \<le> q \<and> q < int (num_qubits (QuantumCircuit (c + 1))))
             (py_range 0 (int c) @ [int c])"
    by (auto simp: ctl QuantumCircuit_def list_all_iff)
  have c4: "1 \<le> int c" "int c \<le> int (length (py_range 0 (int c)))"
    unfolding ctl using c by simp_all
  have c5: "length (py_range 0 (int c)) \<le> 1025" unfolding ctl using c by simp
  obtain circuit' where run: "linear_mc_gate ((1, 0), (0, - 1)) (QuantumCircuit (c + 1))
                                (py_range 0 (int c)) (int c) = Inr circuit'"
    and len: "length (data circuit') =
         length (data (QuantumCircuit (c + 1)))
         + (2 * length (py_range 0 (int c)) * (length (py_range 0 (int c)) - 1) + 1)"
    using linear_mc_gate_appends [OF is_unitary_Z c1 c5 c2 c3 c4] by blast
  have "length (data circuit') = 2 * c * (c - 1) + 1"
    using len by (simp add: ctl QuantumCircuit_def)
  with run show ?thesis by blast
qed

text \<open>
  Claim C2, as the code has it. For a unitary \<open>U\<close>, a non-empty list of \<open>c \<le> 1025\<close>
  distinct control wires and a target wire not among them, all wires of the circuit,
  with the target index between 1 and \<open>c\<close> (so that step 2 finds it in the block),
  \<^verbatim>\<open>linear_mc_gate\<close> returns and appends exactly \<open>2 c (c - 1) + 1\<close> gates, each on two
  wires: \<open>c - 1\<close> for each of the two P ladders, one for step 2 and \<open>(c - 1)^2\<close> for each
  of the two Q ladders. The count is a polynomial of degree 2 in the number of
  controls.
\<close>

theorem linear_mc_gate_count:
  "is_unitary gate \<Longrightarrow> controls \<noteq> [] \<Longrightarrow> length controls \<le> 1025 \<Longrightarrow>
   distinct (controls @ [target]) \<Longrightarrow>
   list_all (\<lambda>q. 0 \<le> q \<and> q < int (num_qubits circuit)) (controls @ [target]) \<Longrightarrow>
   1 \<le> target \<Longrightarrow> target \<le> int (length controls) \<Longrightarrow>
   \<exists>circuit'. linear_mc_gate gate circuit controls target = Inr circuit'
     \<and> length (data circuit') =
         length (data circuit) + (2 * length controls * (length controls - 1) + 1)
     \<and> list_all (\<lambda>ins. length (snd ins) = 2) (drop (length (data circuit)) (data circuit'))"
  by (rule linear_mc_gate_appends)

theorem linear_mc_gate_count_witness:
  "is_unitary ((1, 0), (0, - 1)) \<and> [0, 1, 2] \<noteq> ([] :: int list)
   \<and> length [0, 1, 2 :: int] \<le> 1025 \<and> distinct ([0, 1, 2] @ [3 :: int])
   \<and> list_all (\<lambda>q. 0 \<le> q \<and> q < int (num_qubits (QuantumCircuit 4))) ([0, 1, 2] @ [3])
   \<and> (1::int) \<le> 3 \<and> 3 \<le> int (length [0, 1, 2 :: int])
   \<and> (\<exists>circuit'. linear_mc_gate ((1, 0), (0, - 1)) (QuantumCircuit 4) [0, 1, 2] 3 = Inr circuit'
        \<and> length (data circuit') = 13
        \<and> list_all (\<lambda>ins. length (snd ins) = 2) (data circuit'))"
  using linear_mc_gate_count [of "((1, 0), (0, - 1))" "[0, 1, 2]" 3 "QuantumCircuit 4"]
  by (simp add: QuantumCircuit_def is_unitary_def)

text \<open>
  The number of appended gates is not linear in the number of controls. For the
  Pauli-Z matrix the calls with 1, 2 and 3 controls append 1, 5 and 13 gates, and no
  \<open>a * c + b\<close> takes these three values; and over the calls that return, with up to
  1025 controls, no constant below 1024 bounds the number of gates per wire: the call
  with \<open>K + 2\<close> controls appends more than \<open>K\<close> times the number of wires.
\<close>

theorem linear_mc_gate_count_not_linear:
  "\<not> (\<exists>a b. \<forall>c\<in>{1, 2, 3}. \<exists>circuit'.
         linear_mc_gate ((1, 0), (0, - 1)) (QuantumCircuit (c + 1)) (py_range 0 (int c)) (int c)
           = Inr circuit'
         \<and> int (length (data circuit')) = a * int c + b)
   \<and> \<not> (\<exists>K<1024. \<forall>c\<in>{1..1025}. \<forall>circuit'.
         linear_mc_gate ((1, 0), (0, - 1)) (QuantumCircuit (c + 1)) (py_range 0 (int c)) (int c)
           = Inr circuit'
         \<longrightarrow> length (data circuit') \<le> K * (c + 1))"
proof (intro conjI notI)
  assume "\<exists>a b. \<forall>c\<in>{1, 2, 3}. \<exists>circuit'.
         linear_mc_gate ((1, 0), (0, - 1)) (QuantumCircuit (c + 1)) (py_range 0 (int c)) (int c)
           = Inr circuit'
         \<and> int (length (data circuit')) = a * int c + b"
  then obtain a b where ab: "\<And>c. c \<in> {1, 2, 3} \<Longrightarrow> \<exists>circuit'.
         linear_mc_gate ((1, 0), (0, - 1)) (QuantumCircuit (c + 1)) (py_range 0 (int c)) (int c)
           = Inr circuit'
         \<and> int (length (data circuit')) = a * int c + b"
    by blast
  have v: "int (2 * c * (c - 1) + 1) = a * int c + b" if "c \<in> {1, 2, 3}" for c :: nat
  proof -
    have "1 \<le> c" "c \<le> 1025" using that by auto
    from linear_mc_gate_Z_count [OF this] ab [OF that] show ?thesis by auto
  qed
  from v [of 1] have e1: "a + b = 1" by simp
  from v [of 2] have e2: "2 * a + b = 5" by simp
  from v [of 3] have e3: "3 * a + b = 13" by simp
  from e1 e2 e3 show False by arith
next
  assume "\<exists>K<1024. \<forall>c\<in>{1..1025}. \<forall>circuit'.
         linear_mc_gate ((1, 0), (0, - 1)) (QuantumCircuit (c + 1)) (py_range 0 (int c)) (int c)
           = Inr circuit'
         \<longrightarrow> length (data circuit') \<le> K * (c + 1)"
  then obtain K :: nat where K: "K < 1024"
    and bound: "\<And>c circuit'. c \<in> {1..1025} \<Longrightarrow>
         linear_mc_gate ((1, 0), (0, - 1)) (QuantumCircuit (c + 1)) (py_range 0 (int c)) (int c)
           = Inr circuit'
         \<Longrightarrow> length (data circuit') \<le> K * (c + 1)"
    by blast
  define c where "c = K + 2"
  have c: "1 \<le> c" "c \<le> 1025" using K by (simp_all add: c_def)
  then have cin: "c \<in> {1..1025}" by simp
  from linear_mc_gate_Z_count [OF c] obtain circuit' where
    run: "linear_mc_gate ((1, 0), (0, - 1)) (QuantumCircuit (c + 1)) (py_range 0 (int c)) (int c)
           = Inr circuit'"
    and len: "length (data circuit') = 2 * c * (c - 1) + 1"
    by blast
  from bound [OF cin run] len have "2 * (K + 2) * (K + 1) + 1 \<le> K * (K + 3)"
    by (simp add: c_def)
  then show False by (simp add: algebra_simps)
qed

section \<open>What the gates do to a state\<close>

lemma apply_circuit_append:
  "apply_circuit umat (xs @ ys) \<psi> = apply_circuit umat ys (apply_circuit umat xs \<psi>)"
  by (simp add: apply_circuit_def)

lemma apply_circuit_Nil: "apply_circuit umat [] \<psi> = \<psi>"
  by (simp add: apply_circuit_def)

lemma apply_circuit_Cons:
  "apply_circuit umat (i # is) \<psi> = apply_circuit umat is (apply_instr umat i \<psi>)"
  by (simp add: apply_circuit_def)

lemma flip_bit_involution: "flip_bit w (flip_bit w (x::nat)) = x"
  by (rule bit_eqI) (auto simp: bit_simps)

lemma flip_bit_eq_iff: "flip_bit w (y::nat) = x \<longleftrightarrow> y = flip_bit w x"
  using flip_bit_involution by metis

lemma apply_x_any:
  "apply_instr umat (XGate, [w]) \<psi> = (\<lambda>y. \<psi> (flip_bit w y))"
proof (rule ext)
  fix y :: nat
  have "bit y w \<Longrightarrow> unset_bit w y = flip_bit w y" "\<not> bit y w \<Longrightarrow> set_bit w y = flip_bit w y"
    by (rule bit_eqI, auto simp: bit_simps)+
  then show "apply_instr umat (XGate, [w]) \<psi> y = \<psi> (flip_bit w y)"
    by (simp add: apply_controlled_def x_matrix_def)
qed

lemma apply_x_basis:
  "apply_instr umat (XGate, [w]) (\<lambda>y. s * basis x y) = (\<lambda>y. s * basis (flip_bit w x) y)"
  unfolding apply_x_any by (rule ext) (simp add: basis_def flip_bit_eq_iff)

lemma apply_z_any:
  "apply_instr umat (ZGate, [w]) \<psi> = (\<lambda>y. if bit y w then - \<psi> y else \<psi> y)"
  by (rule ext) (simp add: apply_controlled_def z_matrix_def set_bit_same unset_bit_same)

lemma apply_z_basis:
  "apply_instr umat (ZGate, [w]) (\<lambda>y. s * basis x y) = (\<lambda>y. (if bit x w then - s else s) * basis x y)"
  unfolding apply_z_any by (rule ext) (simp add: basis_def)

lemma list_all_bit_set_bit:
  "t \<notin> set C \<Longrightarrow> list_all (bit (set_bit t (y::nat))) C = list_all (bit y) C"
  by (induction C) (auto simp: bit_simps)

lemma list_all_bit_unset_bit:
  "t \<notin> set C \<Longrightarrow> list_all (bit (unset_bit t (y::nat))) C = list_all (bit y) C"
  by (induction C) (auto simp: bit_simps)

lemma sqrt2_sq: "complex_of_real (sqrt 2) * complex_of_real (sqrt 2) = 2"
  by (metis of_real_mult of_real_numeral real_sqrt_mult_self abs_numeral)

lemma apply_h_val:
  "apply_controlled [] h_matrix t \<psi> z =
     (\<psi> (unset_bit t z) + (if bit z t then - 1 else 1) * \<psi> (set_bit t z)) / complex_of_real (sqrt 2)"
  by (simp add: apply_controlled_def h_matrix_def add_divide_distrib)

lemma apply_cx_val:
  "apply_controlled C x_matrix t \<phi> z =
     (if list_all (bit z) C then (if bit z t then \<phi> (unset_bit t z) else \<phi> (set_bit t z)) else \<phi> z)"
  by (simp add: apply_controlled_def x_matrix_def)

lemma hadamard_comb:
  "(u / complex_of_real (sqrt 2) + c * (v / complex_of_real (sqrt 2))) / complex_of_real (sqrt 2)
     = (u + c * v) / 2"
proof -
  let ?r = "complex_of_real (sqrt 2)"
  have "(u / ?r + c * (v / ?r)) / ?r = (u + c * v) / (?r * ?r)"
    by (simp add: add_divide_distrib divide_divide_eq_left)
  then show ?thesis by (simp only: sqrt2_sq)
qed

lemma hadamard_twice:
  "((a - b) / complex_of_real (sqrt 2) + - 1 * ((a + b) / complex_of_real (sqrt 2))) / complex_of_real (sqrt 2) = - b"
  "((a + b) / complex_of_real (sqrt 2) + - 1 * ((a - b) / complex_of_real (sqrt 2))) / complex_of_real (sqrt 2) = b"
  "((a - b) / complex_of_real (sqrt 2) + 1 * ((a + b) / complex_of_real (sqrt 2))) / complex_of_real (sqrt 2) = a"
  "((a + b) / complex_of_real (sqrt 2) + 1 * ((a - b) / complex_of_real (sqrt 2))) / complex_of_real (sqrt 2) = a"
  unfolding hadamard_comb by simp_all

lemma apply_mcz_any:
  assumes "t \<notin> set C"
  shows "apply_circuit umat [(HGate, [t]), (MCXGate k, C @ [t]), (HGate, [t])] \<psi>
           = (\<lambda>y. if list_all (bit y) C \<and> bit y t then - \<psi> y else \<psi> y)"
proof (rule ext)
  fix y :: nat
  let ?r = "complex_of_real (sqrt 2)"
  let ?y0 = "unset_bit t y" and ?y1 = "set_bit t y"
  let ?h = "apply_controlled [] h_matrix t \<psi>"
  let ?x = "apply_controlled C x_matrix t ?h"
  have h0: "?h ?y0 = (\<psi> ?y0 + \<psi> ?y1) / ?r"
    unfolding apply_h_val by (simp add: bit_simps)
  have h1: "?h ?y1 = (\<psi> ?y0 - \<psi> ?y1) / ?r"
    unfolding apply_h_val by (simp add: bit_simps)
  have c0: "list_all (bit ?y0) C = list_all (bit y) C"
    by (rule list_all_bit_unset_bit [OF assms])
  have c1: "list_all (bit ?y1) C = list_all (bit y) C"
    by (rule list_all_bit_set_bit [OF assms])
  have x0: "?x ?y0 = (if list_all (bit y) C then ?h ?y1 else ?h ?y0)"
    unfolding apply_cx_val c0 by (simp add: bit_simps)
  have x1: "?x ?y1 = (if list_all (bit y) C then ?h ?y0 else ?h ?y1)"
    unfolding apply_cx_val c1 by (simp add: bit_simps)
  have run: "apply_circuit umat [(HGate, [t]), (MCXGate k, C @ [t]), (HGate, [t])] \<psi> y
      = (?x ?y0 + (if bit y t then - 1 else 1) * ?x ?y1) / ?r"
    by (simp add: apply_circuit_def apply_h_val)
  show "apply_circuit umat [(HGate, [t]), (MCXGate k, C @ [t]), (HGate, [t])] \<psi> y
           = (if list_all (bit y) C \<and> bit y t then - \<psi> y else \<psi> y)"
  proof (cases "bit y t")
    case True
    then have y: "?y1 = y" by (rule set_bit_same)
    show ?thesis
    proof (cases "list_all (bit y) C")
      case True
      have "(?h ?y1 + - 1 * ?h ?y0) / ?r = - \<psi> ?y1"
        unfolding h0 h1 by (rule hadamard_twice(1))
      with True \<open>bit y t\<close> show ?thesis unfolding run x0 x1 by (simp add: y)
    next
      case False
      have "(?h ?y0 + - 1 * ?h ?y1) / ?r = \<psi> ?y1"
        unfolding h0 h1 by (rule hadamard_twice(2))
      with False \<open>bit y t\<close> show ?thesis unfolding run x0 x1 by (simp add: y)
    qed
  next
    case False
    then have y: "?y0 = y" by (rule unset_bit_same)
    show ?thesis
    proof (cases "list_all (bit y) C")
      case True
      have "(?h ?y1 + 1 * ?h ?y0) / ?r = \<psi> ?y0"
        unfolding h0 h1 by (rule hadamard_twice(3))
      with True \<open>\<not> bit y t\<close> show ?thesis unfolding run x0 x1 by (simp add: y)
    next
      case False
      have "(?h ?y0 + 1 * ?h ?y1) / ?r = \<psi> ?y0"
        unfolding h0 h1 by (rule hadamard_twice(4))
      with False \<open>\<not> bit y t\<close> show ?thesis unfolding run x0 x1 by (simp add: y)
    qed
  qed
qed

lemma apply_mcz_basis:
  assumes "t \<notin> set C"
  shows "apply_circuit umat [(HGate, [t]), (MCXGate k, C @ [t]), (HGate, [t])] (\<lambda>y. s * basis x y)
           = (\<lambda>y. (if list_all (bit x) C \<and> bit x t then - s else s) * basis x y)"
  unfolding apply_mcz_any [OF assms] by (rule ext) (auto simp: basis_def)

section \<open>The binary string of a number\<close>

lemma bin_digits_step:
  "2 \<le> n \<Longrightarrow> bin_digits n = bin_digits (n div 2) @ [bin_digit (n mod 2)]"
  by (subst bin_digits.simps) simp

lemma bin_digits_small: "n < 2 \<Longrightarrow> bin_digits n = [bin_digit n]"
  by (subst bin_digits.simps) simp

lemma bin_digit_bit: "bin_digit (n mod 2) = (if bit n 0 then CHR ''1'' else CHR ''0'')"
  by (auto simp: bin_digit_def bit_0 odd_iff_mod_2_eq_one)

lemma length_bin_digits_pos: "1 \<le> length (bin_digits n)"
  by (subst bin_digits.simps) simp

lemma bin_digits_bound: "n < 2 ^ length (bin_digits n)"
proof (induction n rule: bin_digits.induct)
  case (1 n)
  show ?case
  proof (cases "n < 2")
    case True
    then show ?thesis by (simp add: bin_digits_small)
  next
    case False
    with 1 have "n div 2 < 2 ^ length (bin_digits (n div 2))" by simp
    then have "n < 2 * 2 ^ length (bin_digits (n div 2))" by linarith
    with False show ?thesis by (simp add: bin_digits_step)
  qed
qed

lemma bin_digits_lower: "1 \<le> n \<Longrightarrow> 2 ^ (length (bin_digits n) - 1) \<le> n"
proof (induction n rule: bin_digits.induct)
  case (1 n)
  show ?case
  proof (cases "n < 2")
    case True
    with 1(2) show ?thesis by (simp add: bin_digits_small)
  next
    case False
    then have "1 \<le> n div 2" by simp
    with 1 False have "2 ^ (length (bin_digits (n div 2)) - 1) \<le> n div 2" by simp
    then have "2 * 2 ^ (length (bin_digits (n div 2)) - 1) \<le> n" by linarith
    moreover have "length (bin_digits (n div 2)) - 1 + 1 = length (bin_digits (n div 2))"
      using length_bin_digits_pos [of "n div 2"] by simp
    ultimately show ?thesis
      using False by (simp add: bin_digits_step) (metis power_Suc Suc_eq_plus1)
  qed
qed

lemma bin_digits_nth:
  "i < length (bin_digits n) \<Longrightarrow>
   bin_digits n ! i = (if bit n (length (bin_digits n) - 1 - i) then CHR ''1'' else CHR ''0'')"
proof (induction n arbitrary: i rule: bin_digits.induct)
  case (1 n)
  show ?case
  proof (cases "n < 2")
    case True
    then have "n = 0 \<or> n = 1" by auto
    with 1(2) True show ?thesis by (auto simp: bin_digits_small bin_digit_def bit_0)
  next
    case False
    let ?L = "length (bin_digits (n div 2))"
    have len: "length (bin_digits n) = ?L + 1" using False by (simp add: bin_digits_step)
    show ?thesis
    proof (cases "i < ?L")
      case True
      have "bin_digits n ! i = bin_digits (n div 2) ! i"
        using False True by (simp add: bin_digits_step nth_append)
      also have "\<dots> = (if bit (n div 2) (?L - 1 - i) then CHR ''1'' else CHR ''0'')"
        using 1(1) False True by simp
      also have "bit (n div 2) (?L - 1 - i) = bit n (Suc (?L - 1 - i))"
        by (simp add: bit_Suc)
      also have "Suc (?L - 1 - i) = length (bin_digits n) - 1 - i"
        using True len by simp
      finally show ?thesis .
    next
      case False
      with 1(2) len have i: "i = ?L" by simp
      have "bin_digits n ! i = bin_digit (n mod 2)"
        using \<open>\<not> n < 2\<close> by (simp add: bin_digits_step i nth_append)
      then show ?thesis by (simp add: bin_digit_bit len i)
    qed
  qed
qed

lemma length_bin_digits_le:
  assumes "n < 2 ^ k" "1 \<le> k"
  shows "length (bin_digits n) \<le> k"
proof (cases "n = 0")
  case True
  with assms show ?thesis by (simp add: bin_digits_small)
next
  case False
  then have "1 \<le> n" by simp
  then have "2 ^ (length (bin_digits n) - 1) \<le> n" by (rule bin_digits_lower)
  with assms(1) have "(2::nat) ^ (length (bin_digits n) - 1) < 2 ^ k" by linarith
  then have "length (bin_digits n) - 1 < k" by simp
  then show ?thesis by simp
qed

lemma bit_above_bound: "(n::nat) < 2 ^ k \<Longrightarrow> k \<le> w \<Longrightarrow> \<not> bit n w"
proof
  assume "n < 2 ^ k" "k \<le> w" "bit n w"
  then have "2 ^ w \<le> n" by (simp add: bit_iff_odd) (metis div_less even_zero linorder_not_le)
  moreover have "(2::nat) ^ k \<le> 2 ^ w" using \<open>k \<le> w\<close> by simp
  ultimately show False using \<open>n < 2 ^ k\<close> by linarith
qed

lemma to_binary_bits:
  assumes "number < 2 ^ n" "1 \<le> n"
  shows "snd (to_binary number (Some (int n))) =
           Some (map (\<lambda>j. if bit number (n - 1 - j) then CHR ''1'' else CHR ''0'') [0..<n])"
proof -
  let ?b = "bin_digits number"
  let ?L = "length ?b"
  have L: "?L \<le> n" by (rule length_bin_digits_le [OF assms])
  have "replicate (n - ?L) (CHR ''0'') @ ?b =
        map (\<lambda>j. if bit number (n - 1 - j) then CHR ''1'' else CHR ''0'') [0..<n]"
  proof (rule nth_equalityI)
    show "length (replicate (n - ?L) (CHR ''0'') @ ?b) =
          length (map (\<lambda>j. if bit number (n - 1 - j) then CHR ''1'' else CHR ''0'') [0..<n])"
      using L by simp
  next
    fix j assume "j < length (replicate (n - ?L) (CHR ''0'') @ ?b)"
    with L have j: "j < n" by simp
    show "(replicate (n - ?L) (CHR ''0'') @ ?b) ! j =
          map (\<lambda>j. if bit number (n - 1 - j) then CHR ''1'' else CHR ''0'') [0..<n] ! j"
    proof (cases "j < n - ?L")
      case True
      then have "?L \<le> n - 1 - j" by simp
      then have "\<not> bit number (n - 1 - j)"
        using bit_above_bound [OF bin_digits_bound] by blast
      with True j show ?thesis by (simp add: nth_append)
    next
      case False
      then have i: "j - (n - ?L) < ?L" using j L by simp
      have e: "?L - 1 - (j - (n - ?L)) = n - 1 - j" using False j L by simp
      have "(replicate (n - ?L) (CHR ''0'') @ ?b) ! j = ?b ! (j - (n - ?L))"
        using False by (simp add: nth_append)
      also have "\<dots> = (if bit number (n - 1 - j) then CHR ''1'' else CHR ''0'')"
        unfolding bin_digits_nth [OF i] e ..
      finally show ?thesis using j by simp
    qed
  qed
  moreover have "nat (int n - int ?L) = n - ?L" by simp
  ultimately show ?thesis using L by (simp add: to_binary_def Let_def del: of_nat_diff)
qed

lemma rstrip0_decompose:
  "\<exists>k. s = rstrip0 s @ replicate k (CHR ''0'')"
proof -
  let ?P = "\<lambda>c. c = CHR ''0''"
  have "s = rev (takeWhile ?P (rev s) @ dropWhile ?P (rev s))"
    by (simp only: takeWhile_dropWhile_id rev_rev_ident)
  then have s: "s = rstrip0 s @ rev (takeWhile ?P (rev s))"
    unfolding rev_append rstrip0_def .
  have "\<forall>c\<in>set (rev (takeWhile ?P (rev s))). c = CHR ''0''"
    by (auto dest: set_takeWhileD)
  then have "rev (takeWhile ?P (rev s)) = replicate (length (rev (takeWhile ?P (rev s)))) (CHR ''0'')"
    by (metis replicate_eqI)
  with s show ?thesis by metis
qed

section \<open>The gates of the less-than oracle of code_oracle.py\<close>

lemma for_each_extends_aux:
  "\<forall>x\<in>set xs. \<forall>c. num_qubits c = w \<longrightarrow> body x c = Inr (c\<lparr>data := data c @ f x\<rparr>) \<Longrightarrow>
   num_qubits c = w \<Longrightarrow> for_each body xs c = Inr (c\<lparr>data := data c @ concat (map f xs)\<rparr>)"
proof (induction xs arbitrary: c)
  case Nil
  show ?case by simp
next
  case (Cons x xs)
  have hx: "\<forall>c. num_qubits c = w \<longrightarrow> body x c = Inr (c\<lparr>data := data c @ f x\<rparr>)"
    by (rule bspec [OF Cons.prems(1)]) simp
  have a: "\<forall>y\<in>set xs. \<forall>c. num_qubits c = w \<longrightarrow> body y c = Inr (c\<lparr>data := data c @ f y\<rparr>)"
  proof (intro ballI)
    fix y assume "y \<in> set xs"
    then have "y \<in> set (x # xs)" by simp
    from bspec [OF Cons.prems(1) this]
    show "\<forall>c. num_qubits c = w \<longrightarrow> body y c = Inr (c\<lparr>data := data c @ f y\<rparr>)" .
  qed
  let ?c1 = "c\<lparr>data := data c @ f x\<rparr>"
  have s1: "body x c = Inr ?c1" by (rule hx [rule_format, OF Cons.prems(2)])
  have w1: "num_qubits ?c1 = w" using Cons.prems(2) by simp
  have "for_each body xs ?c1 = Inr (?c1\<lparr>data := data ?c1 @ concat (map f xs)\<rparr>)"
    by (rule Cons.IH [OF a w1])
  then show ?case by (simp add: s1 bind_err_def)
qed

lemma for_each_extends:
  assumes "\<And>x c. x \<in> set xs \<Longrightarrow> num_qubits c = w \<Longrightarrow> body x c = Inr (c\<lparr>data := data c @ f x\<rparr>)"
  shows "num_qubits c = w \<Longrightarrow> for_each body xs c = Inr (c\<lparr>data := data c @ concat (map f xs)\<rparr>)"
proof -
  have "\<forall>x\<in>set xs. \<forall>c. num_qubits c = w \<longrightarrow> body x c = Inr (c\<lparr>data := data c @ f x\<rparr>)"
    by (intro ballI allI impI) (rule assms)
  then show "num_qubits c = w \<Longrightarrow> for_each body xs c = Inr (c\<lparr>data := data c @ concat (map f xs)\<rparr>)"
    by (rule for_each_extends_aux)
qed

lemma circuit_x_wire:
  "w < num_qubits c \<Longrightarrow> circuit_x c (int w) = Inr (c\<lparr>data := data c @ [(XGate, [w])]\<rparr>)"
  unfolding circuit_x_def by (subst append_gate_one) simp_all

lemma circuit_z_wire:
  "w < num_qubits c \<Longrightarrow> circuit_z c (int w) = Inr (c\<lparr>data := data c @ [(ZGate, [w])]\<rparr>)"
  unfolding circuit_z_def by (subst append_gate_one) simp_all

lemma circuit_h_wire:
  "w < num_qubits c \<Longrightarrow> circuit_h c (int w) = Inr (c\<lparr>data := data c @ [(HGate, [w])]\<rparr>)"
  unfolding circuit_h_def by (subst append_gate_one) simp_all

lemma multi_control_z_mcx_data:
  assumes "1 \<le> P"
  shows "multi_control_z_mcx P =
     Inr \<lparr>num_qubits = P, data = [(HGate, [P - 1]), (MCXGate (P - 1), [0..<P]), (HGate, [P - 1])]\<rparr>"
proof -
  have e: "int P - 1 = int (P - 1)" using assms by simp
  let ?c0 = "QuantumCircuit P"
  let ?c1 = "?c0\<lparr>data := data ?c0 @ [(HGate, [P - 1])]\<rparr>"
  let ?c2 = "?c1\<lparr>data := data ?c1 @ [(MCXGate (P - 1), [0..<P])]\<rparr>"
  have h1: "circuit_h ?c0 (int (P - 1)) = Inr ?c1"
    by (rule circuit_h_wire) (use assms in \<open>simp add: QuantumCircuit_def\<close>)
  have qi: "qubit_indices ?c1 (py_range 0 (int P)) = Inr (map nat (py_range 0 (int P)))"
    by (rule qubit_indices_in_range) (auto simp: list_all_iff set_py_range QuantumCircuit_def)
  have "py_range 0 (int P) = map int [0..<P]"
    using py_range_nat [of 0 P] by simp
  then have ws: "map nat (py_range 0 (int P)) = [0..<P]"
    by (simp add: map_idI)
  have m: "append_gate ?c1 (MCXGate (P - 1)) (py_range 0 (int P)) = Inr ?c2"
    unfolding append_gate_def qi ws using assms by (simp add: bind_err_def)
  have h2: "circuit_h ?c2 (int (P - 1)) = Inr (?c2\<lparr>data := data ?c2 @ [(HGate, [P - 1])]\<rparr>)"
    by (rule circuit_h_wire) (use assms in \<open>simp add: QuantumCircuit_def\<close>)
  have n: "nat (int (P - 1)) = P - 1" by simp
  show ?thesis
    unfolding multi_control_z_mcx_def Let_def e n h1
    by (simp only: bind_err_def sum.case m h2) (simp add: QuantumCircuit_def)
qed

lemma compose_multi_control_z:
  assumes P: "1 \<le> P" "P \<le> n" and c: "num_qubits c = n"
  shows "circuit_compose c
            \<lparr>num_qubits = P, data = [(HGate, [P - 1]), (MCXGate (P - 1), [0..<P]), (HGate, [P - 1])]\<rparr>
            (py_range_down (int n - 1) (int n - int P - 1))
         = Inr (c\<lparr>data := data c @
             [(HGate, [n - P]), (MCXGate (P - 1), map (\<lambda>i. n - 1 - i) [0..<P - 1] @ [n - P]),
              (HGate, [n - P])]\<rparr>)"
proof -
  let ?qs = "py_range_down (int n - 1) (int n - int P - 1)"
  define ws where "ws = map (\<lambda>i. n - 1 - i) [0..<P]"
  have qs: "?qs = map (\<lambda>i. int n - 1 - int i) [0..<P]"
    by (simp add: py_range_down_def)
  have rng: "list_all (\<lambda>q. 0 \<le> q \<and> q < int (num_qubits c)) ?qs"
    using P c by (auto simp: qs list_all_iff)
  have "map nat ?qs = ws"
    unfolding qs map_map o_def ws_def
  proof (rule map_cong [OF refl])
    fix i assume "i \<in> set [0..<P]"
    with P have "i < n" by simp
    then have "int n - 1 - int i = int (n - 1 - i)" by linarith
    then show "nat (int n - 1 - int i) = n - 1 - i" by (simp del: of_nat_diff)
  qed
  with qubit_indices_in_range [OF rng] have qi: "qubit_indices c ?qs = Inr ws" by simp
  have d: "distinct ws" unfolding ws_def using P by (auto simp: distinct_map inj_on_def)
  have len: "length ws = P" by (simp add: ws_def)
  obtain k where k: "P = Suc k" using P by (cases P) simp_all
  have split: "ws = map (\<lambda>i. n - 1 - i) [0..<P - 1] @ [n - P]"
    unfolding ws_def using P by (simp add: k)
  have last: "ws ! (P - 1) = n - P" unfolding ws_def using P by (simp add: k del: upt_Suc)
  have all: "map (\<lambda>v. ws ! v) [0..<P] = ws"
    by (rule nth_equalityI) (simp_all add: len)
  have "circuit_compose c
            \<lparr>num_qubits = P, data = [(HGate, [P - 1]), (MCXGate (P - 1), [0..<P]), (HGate, [P - 1])]\<rparr>
            ?qs
         = Inr (c\<lparr>data := data c @
             [(HGate, [ws ! (P - 1)]), (MCXGate (P - 1), map (\<lambda>v. ws ! v) [0..<P]),
              (HGate, [ws ! (P - 1)])]\<rparr>)"
    unfolding circuit_compose_def qi using d len by (simp add: bind_err_def del: upt_Suc map_map)
  then have "circuit_compose c
            \<lparr>num_qubits = P, data = [(HGate, [P - 1]), (MCXGate (P - 1), [0..<P]), (HGate, [P - 1])]\<rparr>
            ?qs
         = Inr (c\<lparr>data := data c @ [(HGate, [n - P]), (MCXGate (P - 1), ws), (HGate, [n - P])]\<rparr>)"
    by (simp only: last all)
  then show ?thesis by (simp only: split)
qed

lemma loop1_body:
  assumes p: "p1 + 2 \<le> n" and c: "num_qubits c = n"
  shows "(let position = int p1 + 1 in
            if v = CHR ''0''
            then circuit_x c (int n - position - 1)
            else bind_err (circuit_x c (int n - position - 1)) (\<lambda>circuit.
                 bind_err (multi_control_z_mcx (nat (position + 1))) (\<lambda>multi_z.
                 bind_err (circuit_compose circuit multi_z
                             (py_range_down (int n - 1) (int n - position - 2))) (\<lambda>circuit.
                 circuit_x circuit (int n - position - 1)))))
         = Inr (c\<lparr>data := data c @
             (if v = CHR ''0'' then [(XGate, [n - p1 - 2])]
              else [(XGate, [n - p1 - 2]), (HGate, [n - p1 - 2]),
                    (MCXGate (p1 + 1), map (\<lambda>i. n - 1 - i) [0..<p1 + 1] @ [n - p1 - 2]),
                    (HGate, [n - p1 - 2]), (XGate, [n - p1 - 2])])\<rparr>)"
proof -
  let ?w = "n - p1 - 2"
  have e1: "int n - (int p1 + 1) - 1 = int ?w" using p by linarith
  have e2: "nat (int p1 + 1 + 1) = p1 + 2" by simp
  have e3: "int n - (int p1 + 1) - 2 = int n - int (p1 + 2) - 1" by simp
  have w: "?w < n" using p by simp
  let ?c1 = "c\<lparr>data := data c @ [(XGate, [?w])]\<rparr>"
  let ?mz = "\<lparr>num_qubits = p1 + 2,
             data = [(HGate, [p1 + 2 - 1]), (MCXGate (p1 + 2 - 1), [0..<p1 + 2]), (HGate, [p1 + 2 - 1])]\<rparr>"
  let ?c2 = "?c1\<lparr>data := data ?c1 @
             [(HGate, [n - (p1 + 2)]), (MCXGate (p1 + 2 - 1), map (\<lambda>i. n - 1 - i) [0..<p1 + 2 - 1] @ [n - (p1 + 2)]),
              (HGate, [n - (p1 + 2)])]\<rparr>"
  have x1: "circuit_x c (int ?w) = Inr ?c1"
    by (rule circuit_x_wire) (use c w in simp)
  have mz: "multi_control_z_mcx (p1 + 2) = Inr ?mz"
    by (rule multi_control_z_mcx_data) simp
  have cmp: "circuit_compose ?c1 ?mz (py_range_down (int n - 1) (int n - int (p1 + 2) - 1)) = Inr ?c2"
    by (rule compose_multi_control_z) (use p c in simp_all)
  have x2: "circuit_x ?c2 (int ?w) = Inr (?c2\<lparr>data := data ?c2 @ [(XGate, [?w])]\<rparr>)"
    by (rule circuit_x_wire) (use c w in simp)
  have fin: "?c2\<lparr>data := data ?c2 @ [(XGate, [?w])]\<rparr> =
      c\<lparr>data := data c @ [(XGate, [?w]), (HGate, [?w]),
                    (MCXGate (p1 + 1), map (\<lambda>i. n - 1 - i) [0..<p1 + 1] @ [?w]),
                    (HGate, [?w]), (XGate, [?w])]\<rparr>"
    by (simp del: upt_Suc)
  show ?thesis
  proof (cases "v = CHR ''0''")
    case True
    then show ?thesis unfolding Let_def e1 by (simp only: x1 simp_thms if_True)
  next
    case False
    then show ?thesis
      unfolding Let_def e1 e2 e3
      by (simp only: False if_False x1 bind_err_def sum.case mz cmp x2 fin)
  qed
qed

lemma loop2_body:
  assumes p: "p < n" and c: "num_qubits c = n"
  shows "(if v = CHR ''0'' then circuit_x c (int n - int p - 1) else Inr c)
         = Inr (c\<lparr>data := data c @ (if v = CHR ''0'' then [(XGate, [n - p - 1])] else [])\<rparr>)"
proof -
  have e: "int n - int p - 1 = int (n - p - 1)" using p by linarith
  have "circuit_x c (int (n - p - 1)) = Inr (c\<lparr>data := data c @ [(XGate, [n - p - 1])]\<rparr>)"
    by (rule circuit_x_wire) (use p c in simp)
  then show ?thesis unfolding e by simp
qed

lemma in_set_enumerate_less: "(i, v) \<in> set (enumerate k xs) \<Longrightarrow> k \<le> i \<and> i < k + length xs"
  by (auto simp: in_set_enumerate_eq)

lemma oracle_less_than_mcx_data:
  assumes bin: "snd (to_binary N (Some (int n))) = Some binary"
      and fr: "rstrip0 binary = first # rest"
      and len: "Suc (length rest) \<le> n"
  shows "oracle_less_than_mcx N n = Inr \<lparr>num_qubits = n, data =
      (if first = CHR ''1'' then [(XGate, [n - 1]), (ZGate, [n - 1]), (XGate, [n - 1])]
       else [(XGate, [n - 1])])
      @ concat (map (\<lambda>(p1, v).
           if v = CHR ''0'' then [(XGate, [n - p1 - 2])]
           else [(XGate, [n - p1 - 2]), (HGate, [n - p1 - 2]),
                 (MCXGate (p1 + 1), map (\<lambda>i. n - 1 - i) [0..<p1 + 1] @ [n - p1 - 2]),
                 (HGate, [n - p1 - 2]), (XGate, [n - p1 - 2])]) (enumerate 0 rest))
      @ concat (map (\<lambda>(p, v). if v = CHR ''0'' then [(XGate, [n - p - 1])] else [])
          (enumerate 0 (first # rest)))\<rparr>"
proof -
  let ?s0 = "if first = CHR ''1'' then [(XGate, [n - 1]), (ZGate, [n - 1]), (XGate, [n - 1])]
       else [(XGate, [n - 1])]"
  let ?f1 = "\<lambda>(p1, v).
           if v = CHR ''0'' then [(XGate, [n - p1 - 2])]
           else [(XGate, [n - p1 - 2]), (HGate, [n - p1 - 2]),
                 (MCXGate (p1 + 1), map (\<lambda>i. n - 1 - i) [0..<p1 + 1] @ [n - p1 - 2]),
                 (HGate, [n - p1 - 2]), (XGate, [n - p1 - 2])]"
  let ?f2 = "\<lambda>(p, v). if v = CHR ''0'' then [(XGate, [n - p - 1])] else []"
  let ?c0 = "QuantumCircuit n"
  let ?c1 = "?c0\<lparr>data := data ?c0 @ ?s0\<rparr>"
  let ?c2 = "?c1\<lparr>data := data ?c1 @ concat (map ?f1 (enumerate 0 rest))\<rparr>"
  let ?c3 = "?c2\<lparr>data := data ?c2 @ concat (map ?f2 (enumerate 0 (first # rest)))\<rparr>"
  have n1: "1 \<le> n" using len by simp
  have e: "int n - 1 = int (n - 1)" using n1 by simp
  have w: "n - 1 < n" using n1 by simp
  have xa: "circuit_x c (int (n - 1)) = Inr (c\<lparr>data := data c @ [(XGate, [n - 1])]\<rparr>)"
    if "num_qubits c = n" for c
    by (rule circuit_x_wire) (use that w in simp)
  have za: "circuit_z c (int (n - 1)) = Inr (c\<lparr>data := data c @ [(ZGate, [n - 1])]\<rparr>)"
    if "num_qubits c = n" for c
    by (rule circuit_z_wire) (use that w in simp)
  have s0: "(if first = CHR ''1''
             then bind_err (circuit_x ?c0 (int n - 1)) (\<lambda>circuit.
                  bind_err (circuit_z circuit (int n - 1)) (\<lambda>circuit.
                  circuit_x circuit (int n - 1)))
             else circuit_x ?c0 (int n - 1)) = Inr ?c1"
  proof -
    let ?a = "?c0\<lparr>data := data ?c0 @ [(XGate, [n - 1])]\<rparr>"
    let ?b = "?a\<lparr>data := data ?a @ [(ZGate, [n - 1])]\<rparr>"
    have q0: "num_qubits ?c0 = n" "num_qubits ?a = n" "num_qubits ?b = n"
      by (simp_all add: QuantumCircuit_def)
    note steps = xa [OF q0(1)] za [OF q0(2)] xa [OF q0(3)]
    show ?thesis
    proof (cases "first = CHR ''1''")
      case True
      show ?thesis
        unfolding e by (simp only: True if_True steps bind_err_def sum.case) (simp add: True)
    next
      case False
      show ?thesis
        unfolding e by (simp only: False if_False steps)
    qed
  qed
  have s1: "for_each (\<lambda>(position1, val) circuit.
                    (if val = CHR ''0''
                     then circuit_x circuit (int n - (int position1 + 1) - 1)
                     else bind_err (circuit_x circuit (int n - (int position1 + 1) - 1)) (\<lambda>circuit.
                          bind_err (multi_control_z_mcx (nat (int position1 + 1 + 1))) (\<lambda>multi_z.
                          bind_err (circuit_compose circuit multi_z
                                      (py_range_down (int n - 1) (int n - (int position1 + 1) - 2))) (\<lambda>circuit.
                          circuit_x circuit (int n - (int position1 + 1) - 1))))))
                    (enumerate 0 rest) ?c1 = Inr ?c2"
  proof (rule for_each_extends [where w = n])
    fix x :: "nat \<times> char" and c :: circuit
    assume x: "x \<in> set (enumerate 0 rest)" and c: "num_qubits c = n"
    obtain p1 v where pv: "x = (p1, v)" by (cases x)
    with x have "p1 < length rest" using in_set_enumerate_less [of p1 v 0 rest] by simp
    with len have p: "p1 + 2 \<le> n" by simp
    show "(case x of (position1, val) \<Rightarrow> \<lambda>circuit.
                    (if val = CHR ''0''
                     then circuit_x circuit (int n - (int position1 + 1) - 1)
                     else bind_err (circuit_x circuit (int n - (int position1 + 1) - 1)) (\<lambda>circuit.
                          bind_err (multi_control_z_mcx (nat (int position1 + 1 + 1))) (\<lambda>multi_z.
                          bind_err (circuit_compose circuit multi_z
                                      (py_range_down (int n - 1) (int n - (int position1 + 1) - 2))) (\<lambda>circuit.
                          circuit_x circuit (int n - (int position1 + 1) - 1)))))) c
          = Inr (c\<lparr>data := data c @ ?f1 x\<rparr>)"
      unfolding pv prod.case by (rule loop1_body [unfolded Let_def, OF p c])
  qed (simp add: QuantumCircuit_def)
  have s2: "for_each (\<lambda>(position, val) circuit.
                    if val = CHR ''0'' then circuit_x circuit (int n - int position - 1)
                    else Inr circuit)
                 (enumerate 0 (first # rest)) ?c2 = Inr ?c3"
  proof (rule for_each_extends [where w = n])
    fix x :: "nat \<times> char" and c :: circuit
    assume x: "x \<in> set (enumerate 0 (first # rest))" and c: "num_qubits c = n"
    obtain p v where pv: "x = (p, v)" by (cases x)
    with x have "p < length (first # rest)" using in_set_enumerate_less [of p v 0 "first # rest"] by simp
    with len have p: "p < n" by simp
    show "(case x of (position, val) \<Rightarrow> \<lambda>circuit.
                    if val = CHR ''0'' then circuit_x circuit (int n - int position - 1)
                    else Inr circuit) c
          = Inr (c\<lparr>data := data c @ ?f2 x\<rparr>)"
      unfolding pv prod.case by (rule loop2_body [OF p c])
  qed (simp add: QuantumCircuit_def)
  have fin: "?c3 = \<lparr>num_qubits = n, data = ?s0 @ concat (map ?f1 (enumerate 0 rest))
      @ concat (map ?f2 (enumerate 0 (first # rest)))\<rparr>"
    by (simp add: QuantumCircuit_def)
  show ?thesis
    unfolding oracle_less_than_mcx_def oracle_less_than_body_def Let_def bin option.case fr list.case s0
    by (simp only: bind_err_Inr s1 s2 fin)
qed

section \<open>Comparing bit by bit\<close>

lemma div_pow2_step:
  "(x::nat) div 2 ^ w = 2 * (x div 2 ^ Suc w) + (if bit x w then 1 else 0)"
proof -
  have "x div 2 ^ w = 2 * (x div 2 ^ w div 2) + x div 2 ^ w mod 2" by simp
  moreover have "x div 2 ^ w div 2 = x div 2 ^ Suc w" by (simp only: power_Suc2 div_mult2_eq)
  moreover have "x div 2 ^ w mod 2 = (if bit x w then 1 else 0)"
    by (simp add: bit_iff_odd odd_iff_mod_2_eq_one)
  ultimately show ?thesis by simp
qed

lemma prefix_eq_iff:
  assumes "(x::nat) < 2 ^ n" "(N::nat) < 2 ^ n"
  shows "(\<forall>v. k \<le> v \<and> v < n \<longrightarrow> bit x v = bit N v) \<longleftrightarrow> x div 2 ^ k = N div 2 ^ k"
proof
  assume h: "\<forall>v. k \<le> v \<and> v < n \<longrightarrow> bit x v = bit N v"
  have "drop_bit k x = drop_bit k N"
  proof (rule bit_eqI)
    fix i
    show "bit (drop_bit k x) i = bit (drop_bit k N) i"
    proof (cases "k + i < n")
      case True
      with h show ?thesis by (simp add: bit_drop_bit_eq)
    next
      case False
      then have "n \<le> k + i" by simp
      then have "\<not> bit x (k + i)" "\<not> bit N (k + i)"
        using bit_above_bound assms by blast+
      then show ?thesis by (simp add: bit_drop_bit_eq)
    qed
  qed
  then show "x div 2 ^ k = N div 2 ^ k" by (simp add: drop_bit_eq_div)
next
  assume e: "x div 2 ^ k = N div 2 ^ k"
  show "\<forall>v. k \<le> v \<and> v < n \<longrightarrow> bit x v = bit N v"
  proof (intro allI impI)
    fix v assume v: "k \<le> v \<and> v < n"
    have "bit x v = bit (drop_bit k x) (v - k)" using v by (simp add: bit_drop_bit_eq)
    also have "\<dots> = bit (drop_bit k N) (v - k)" using e by (simp add: drop_bit_eq_div)
    also have "\<dots> = bit N v" using v by (simp add: bit_drop_bit_eq)
    finally show "bit x v = bit N v" .
  qed
qed

lemma low_bits_zero_less:
  assumes "\<forall>v<k. \<not> bit (N::nat) v"
  shows "(x div 2 ^ k < N div 2 ^ k) \<longleftrightarrow> x < N"
proof -
  have "take_bit k N = 0"
    by (rule bit_eqI) (use assms in \<open>simp add: bit_take_bit_iff\<close>)
  then have "N mod 2 ^ k = 0" by (simp add: take_bit_eq_mod)
  then have N: "N = N div 2 ^ k * 2 ^ k" by (metis div_mult_mod_eq add.right_neutral)
  have "(x div 2 ^ k < N div 2 ^ k) \<longleftrightarrow> x < N div 2 ^ k * 2 ^ k"
    by (rule div_less_iff_less_mult) simp
  with N show ?thesis by simp
qed

lemma bit_flip_bit_nat: "bit (flip_bit w (y::nat)) v = (bit y v \<noteq> (v = w))"
  by (auto simp: bit_simps)

lemma list_all_bit_flip_bit:
  "w \<notin> set C \<Longrightarrow> list_all (bit (flip_bit w (y::nat))) C = list_all (bit y) C"
  by (induction C) (auto simp: bit_flip_bit_nat)

lemma flip_phase_flip:
  assumes G: "\<And>s y. apply_circuit umat G (\<lambda>z. s * basis y z)
                 = (\<lambda>z. (if list_all (bit y) C \<and> bit y w then - s else s) * basis y z)"
    and w: "w \<notin> set C"
  shows "apply_circuit umat ([(XGate, [w])] @ G @ [(XGate, [w])]) (\<lambda>z. s * basis y z)
           = (\<lambda>z. (if list_all (bit y) C \<and> \<not> bit y w then - s else s) * basis y z)"
proof -
  have 1: "apply_circuit umat [(XGate, [w])] (\<lambda>z. s * basis y z) = (\<lambda>z. s * basis (flip_bit w y) z)"
    by (simp only: apply_circuit_Cons apply_circuit_Nil apply_x_basis)
  have 2: "apply_circuit umat G (\<lambda>z. s * basis (flip_bit w y) z)
         = (\<lambda>z. (if list_all (bit y) C \<and> \<not> bit y w then - s else s) * basis (flip_bit w y) z)"
    unfolding G list_all_bit_flip_bit [OF w] by (simp add: bit_flip_bit_nat)
  have 3: "apply_circuit umat [(XGate, [w])]
             (\<lambda>z. (if list_all (bit y) C \<and> \<not> bit y w then - s else s) * basis (flip_bit w y) z)
         = (\<lambda>z. (if list_all (bit y) C \<and> \<not> bit y w then - s else s) * basis y z)"
    by (simp only: apply_circuit_Cons apply_circuit_Nil apply_x_basis flip_bit_involution)
  show ?thesis
    unfolding apply_circuit_append 1 2 3 ..
qed

lemma oracle_step:
  assumes x: "(x::nat) < 2 ^ n" and N: "(N::nat) < 2 ^ n" and p: "p < n"
    and inv: "\<forall>v. bit y v = (bit x v \<noteq> (n - p \<le> v \<and> v < n \<and> \<not> bit N v))"
    and G: "\<And>s y. apply_circuit umat G (\<lambda>z. s * basis y z)
                 = (\<lambda>z. (if list_all (bit y) C \<and> bit y (n - 1 - p) then - s else s) * basis y z)"
    and C: "set C = {v. n - p \<le> v \<and> v < n}"
  shows "\<exists>y'. apply_circuit umat
              (if bit N (n - 1 - p) then [(XGate, [n - 1 - p])] @ G @ [(XGate, [n - 1 - p])]
               else [(XGate, [n - 1 - p])])
              (\<lambda>z. (if x div 2 ^ (n - p) < N div 2 ^ (n - p) then - 1 else 1) * basis y z)
            = (\<lambda>z. (if x div 2 ^ (n - Suc p) < N div 2 ^ (n - Suc p) then - 1 else 1) * basis y' z)
          \<and> (\<forall>v. bit y' v = (bit x v \<noteq> (n - Suc p \<le> v \<and> v < n \<and> \<not> bit N v)))"
proof -
  let ?w = "n - 1 - p"
  have sw: "Suc ?w = n - p" and ws: "?w = n - Suc p" using p by simp_all
  have wC: "?w \<notin> set C" unfolding C using p by simp
  have a: "x div 2 ^ ?w = 2 * (x div 2 ^ (n - p)) + (if bit x ?w then 1 else 0)"
    using div_pow2_step [of x ?w] by (simp only: sw)
  have b: "N div 2 ^ ?w = 2 * (N div 2 ^ (n - p)) + (if bit N ?w then 1 else 0)"
    using div_pow2_step [of N ?w] by (simp only: sw)
  show ?thesis
  proof (cases "bit N ?w")
    case False
    have sgn: "(x div 2 ^ (n - Suc p) < N div 2 ^ (n - Suc p)) = (x div 2 ^ (n - p) < N div 2 ^ (n - p))"
      unfolding ws [symmetric] a b using False by auto
    have run: "apply_circuit umat [(XGate, [?w])]
              (\<lambda>z. (if x div 2 ^ (n - p) < N div 2 ^ (n - p) then - 1 else 1) * basis y z)
            = (\<lambda>z. (if x div 2 ^ (n - Suc p) < N div 2 ^ (n - Suc p) then - 1 else 1) * basis (flip_bit ?w y) z)"
      unfolding sgn by (simp only: apply_circuit_Cons apply_circuit_Nil apply_x_basis)
    have "\<forall>v. bit (flip_bit ?w y) v = (bit x v \<noteq> (n - Suc p \<le> v \<and> v < n \<and> \<not> bit N v))"
    proof
      fix v
      show "bit (flip_bit ?w y) v = (bit x v \<noteq> (n - Suc p \<le> v \<and> v < n \<and> \<not> bit N v))"
        unfolding bit_flip_bit_nat inv [rule_format] using False p by (cases "v = ?w") auto
    qed
    with run False show ?thesis by (simp only: if_False) blast
  next
    case True
    have all: "list_all (bit y) C \<longleftrightarrow> x div 2 ^ (n - p) = N div 2 ^ (n - p)"
    proof -
      have "list_all (bit y) C \<longleftrightarrow> (\<forall>v. n - p \<le> v \<and> v < n \<longrightarrow> bit y v)"
        unfolding list_all_iff C by auto
      also have "\<dots> \<longleftrightarrow> (\<forall>v. n - p \<le> v \<and> v < n \<longrightarrow> bit x v = bit N v)"
        unfolding inv [rule_format] by auto
      also have "\<dots> \<longleftrightarrow> x div 2 ^ (n - p) = N div 2 ^ (n - p)"
        by (rule prefix_eq_iff [OF x N])
      finally show ?thesis .
    qed
    have "bit y ?w = (bit x ?w \<noteq> (n - p \<le> ?w \<and> ?w < n \<and> \<not> bit N ?w))"
      using inv by blast
    moreover have "\<not> n - p \<le> ?w" using p by linarith
    ultimately have yw: "bit y ?w = bit x ?w" by blast
    have sgn: "(if list_all (bit y) C \<and> \<not> bit y ?w
                then - (if x div 2 ^ (n - p) < N div 2 ^ (n - p) then - 1 else 1)
                else (if x div 2 ^ (n - p) < N div 2 ^ (n - p) then - 1 else 1))
             = (if x div 2 ^ (n - Suc p) < N div 2 ^ (n - Suc p) then - 1 else (1::complex))"
      unfolding ws [symmetric] a b all yw using True by auto
    have run: "apply_circuit umat ([(XGate, [?w])] @ G @ [(XGate, [?w])])
              (\<lambda>z. (if x div 2 ^ (n - p) < N div 2 ^ (n - p) then - 1 else 1) * basis y z)
            = (\<lambda>z. (if x div 2 ^ (n - Suc p) < N div 2 ^ (n - Suc p) then - 1 else 1) * basis y z)"
      unfolding flip_phase_flip [of umat G C ?w, OF G wC] sgn ..
    have "\<forall>v. bit y v = (bit x v \<noteq> (n - Suc p \<le> v \<and> v < n \<and> \<not> bit N v))"
    proof
      fix v
      show "bit y v = (bit x v \<noteq> (n - Suc p \<le> v \<and> v < n \<and> \<not> bit N v))"
        unfolding inv [rule_format] using True p by (cases "v = ?w") auto
    qed
    with run True show ?thesis by (simp only: if_True) blast
  qed
qed

lemma loop1_sem:
  fixes x N :: nat
  assumes x: "x < 2 ^ n" and N: "N < 2 ^ n"
  shows "k + 1 + length ds \<le> n \<Longrightarrow>
     \<forall>i<length ds. ds ! i = (if bit N (n - (k + i) - 2) then CHR ''1'' else CHR ''0'') \<Longrightarrow>
     \<forall>v. bit y v = (bit x v \<noteq> (n - (k + 1) \<le> v \<and> v < n \<and> \<not> bit N v)) \<Longrightarrow>
     \<exists>y'. apply_circuit umat
            (concat (map (\<lambda>(p1, v).
               if v = CHR ''0'' then [(XGate, [n - p1 - 2])]
               else [(XGate, [n - p1 - 2]), (HGate, [n - p1 - 2]),
                     (MCXGate (p1 + 1), map (\<lambda>i. n - 1 - i) [0..<p1 + 1] @ [n - p1 - 2]),
                     (HGate, [n - p1 - 2]), (XGate, [n - p1 - 2])]) (enumerate k ds)))
            (\<lambda>z. (if x div 2 ^ (n - (k + 1)) < N div 2 ^ (n - (k + 1)) then - 1 else 1) * basis y z)
          = (\<lambda>z. (if x div 2 ^ (n - (k + 1 + length ds)) < N div 2 ^ (n - (k + 1 + length ds))
                  then - 1 else 1) * basis y' z)
        \<and> (\<forall>v. bit y' v = (bit x v \<noteq> (n - (k + 1 + length ds) \<le> v \<and> v < n \<and> \<not> bit N v)))"
proof (induction ds arbitrary: k y)
  case Nil
  then show ?case by (auto simp: apply_circuit_Nil)
next
  case (Cons d ds)
  let ?f = "\<lambda>(p1, v).
               if v = CHR ''0'' then [(XGate, [n - p1 - 2])]
               else [(XGate, [n - p1 - 2]), (HGate, [n - p1 - 2]),
                     (MCXGate (p1 + 1), map (\<lambda>i. n - 1 - i) [0..<p1 + 1] @ [n - p1 - 2]),
                     (HGate, [n - p1 - 2]), (XGate, [n - p1 - 2])]"
  define p where "p = k + 1"
  define w where "w = n - 1 - p"
  define C where "C = map (\<lambda>i. n - 1 - i) [0..<k + 1]"
  let ?G = "[(HGate, [w]), (MCXGate (k + 1), C @ [w]), (HGate, [w])]"
  have pn: "p < n" using Cons.prems(1) by (simp add: p_def)
  have wk: "n - k - 2 = w" by (simp add: w_def p_def)
  have setC: "set C = {v. n - p \<le> v \<and> v < n}"
  proof (rule set_eqI)
    fix v
    show "v \<in> set C \<longleftrightarrow> v \<in> {v. n - p \<le> v \<and> v < n}"
    proof
      assume "v \<in> set C"
      then have "v \<in> (\<lambda>i. n - 1 - i) ` {0..<k + 1}" by (simp only: C_def set_map set_upt)
      then obtain i where "i < k + 1" "v = n - 1 - i" by (elim imageE) simp
      with pn show "v \<in> {v. n - p \<le> v \<and> v < n}" by (simp add: p_def)
    next
      assume "v \<in> {v. n - p \<le> v \<and> v < n}"
      then have v: "n - p \<le> v" "v < n" by simp_all
      then have i: "n - 1 - v \<in> {0..<k + 1}" and e: "v = n - 1 - (n - 1 - v)"
        using pn by (simp_all add: p_def)
      show "v \<in> set C"
        unfolding C_def set_map set_upt
        by (rule image_eqI [where f = "\<lambda>i. n - 1 - i" and x = "n - 1 - v"]) (rule e, rule i)
    qed
  qed
  have wC: "w \<notin> set C" unfolding setC using pn by (simp add: w_def)
  have G: "apply_circuit umat ?G (\<lambda>z. s * basis y z)
             = (\<lambda>z. (if list_all (bit y) C \<and> bit y (n - 1 - p) then - s else s) * basis y z)" for s y
    unfolding w_def [symmetric] by (rule apply_mcz_basis [OF wC])
  have inv: "\<forall>v. bit y v = (bit x v \<noteq> (n - p \<le> v \<and> v < n \<and> \<not> bit N v))"
    unfolding p_def by (rule Cons.prems(3))
  have d: "d = (if bit N w then CHR ''1'' else CHR ''0'')"
    using Cons.prems(2) [rule_format, of 0] by (simp add: w_def p_def)
  have blk: "?f (k, d) = (if bit N (n - 1 - (k + 1))
               then [(XGate, [n - 1 - (k + 1)])] @ ?G @ [(XGate, [n - 1 - (k + 1)])]
               else [(XGate, [n - 1 - (k + 1)])])"
    by (simp add: d w_def p_def C_def del: upt_Suc)
  have e1: "Suc (k + 1) = Suc k + 1" by simp
  have e2: "Suc k + 1 + length ds = k + 1 + length (d # ds)" by simp
  obtain y1 where run1: "apply_circuit umat (?f (k, d))
              (\<lambda>z. (if x div 2 ^ (n - (k + 1)) < N div 2 ^ (n - (k + 1)) then - 1 else 1) * basis y z)
            = (\<lambda>z. (if x div 2 ^ (n - (Suc k + 1)) < N div 2 ^ (n - (Suc k + 1)) then - 1 else 1) * basis y1 z)"
    and inv1: "\<forall>v. bit y1 v = (bit x v \<noteq> (n - (Suc k + 1) \<le> v \<and> v < n \<and> \<not> bit N v))"
    using oracle_step [OF x N pn inv G setC, unfolded p_def e1, folded blk] by blast
  have l: "Suc k + 1 + length ds \<le> n" using Cons.prems(1) by simp
  have ds: "\<forall>i<length ds. ds ! i = (if bit N (n - (Suc k + i) - 2) then CHR ''1'' else CHR ''0'')"
  proof (intro allI impI)
    fix i assume "i < length ds"
    then have "Suc i < length (d # ds)" by simp
    from Cons.prems(2) [rule_format, OF this]
    show "ds ! i = (if bit N (n - (Suc k + i) - 2) then CHR ''1'' else CHR ''0'')" by simp
  qed
  obtain y2 where run2: "apply_circuit umat (concat (map ?f (enumerate (Suc k) ds)))
            (\<lambda>z. (if x div 2 ^ (n - (Suc k + 1)) < N div 2 ^ (n - (Suc k + 1)) then - 1 else 1) * basis y1 z)
          = (\<lambda>z. (if x div 2 ^ (n - (Suc k + 1 + length ds)) < N div 2 ^ (n - (Suc k + 1 + length ds))
                  then - 1 else 1) * basis y2 z)"
    and inv2: "\<forall>v. bit y2 v = (bit x v \<noteq> (n - (Suc k + 1 + length ds) \<le> v \<and> v < n \<and> \<not> bit N v))"
    using Cons.IH [OF l ds inv1] by blast
  have "apply_circuit umat (concat (map ?f (enumerate k (d # ds))))
            (\<lambda>z. (if x div 2 ^ (n - (k + 1)) < N div 2 ^ (n - (k + 1)) then - 1 else 1) * basis y z)
      = apply_circuit umat (concat (map ?f (enumerate (Suc k) ds)))
          (apply_circuit umat (?f (k, d))
            (\<lambda>z. (if x div 2 ^ (n - (k + 1)) < N div 2 ^ (n - (k + 1)) then - 1 else 1) * basis y z))"
    by (simp only: enumerate_simps list.map concat.simps apply_circuit_append)
  also have "\<dots> = (\<lambda>z. (if x div 2 ^ (n - (Suc k + 1 + length ds)) < N div 2 ^ (n - (Suc k + 1 + length ds))
                  then - 1 else 1) * basis y2 z)"
    by (simp only: run1 run2)
  finally have "apply_circuit umat (concat (map ?f (enumerate k (d # ds))))
            (\<lambda>z. (if x div 2 ^ (n - (k + 1)) < N div 2 ^ (n - (k + 1)) then - 1 else 1) * basis y z)
      = (\<lambda>z. (if x div 2 ^ (n - (k + 1 + length (d # ds))) < N div 2 ^ (n - (k + 1 + length (d # ds)))
                  then - 1 else 1) * basis y2 z)"
    unfolding e2 .
  with inv2 [unfolded e2] show ?case by blast
qed

lemma loop2_sem:
  fixes x N :: nat
  shows "j + length ds = m \<Longrightarrow> m \<le> n \<Longrightarrow>
     \<forall>i<length ds. ds ! i = (if bit N (n - 1 - (j + i)) then CHR ''1'' else CHR ''0'') \<Longrightarrow>
     \<forall>v. bit y v = (bit x v \<noteq> (n - m \<le> v \<and> v < n - j \<and> \<not> bit N v)) \<Longrightarrow>
     apply_circuit umat
        (concat (map (\<lambda>(p, v). if v = CHR ''0'' then [(XGate, [n - p - 1])] else [])
           (enumerate j ds)))
        (\<lambda>z. s * basis y z)
      = (\<lambda>z. s * basis x z)"
proof (induction ds arbitrary: j y)
  case Nil
  have "y = x"
  proof (rule bit_eqI)
    fix v
    have "\<not> (n - m \<le> v \<and> v < n - j \<and> \<not> bit N v)" using Nil.prems(1) by auto
    with Nil.prems(4) show "bit y v = bit x v" by blast
  qed
  then show ?case by (simp add: apply_circuit_Nil)
next
  case (Cons d ds)
  let ?f = "\<lambda>(p, v). if v = CHR ''0'' then [(XGate, [n - p - 1])] else []"
  define w where "w = n - 1 - j"
  have jm: "j < m" using Cons.prems(1) by simp
  have jn: "j < n" using jm Cons.prems(2) by simp
  have wj: "n - j - 1 = w" by (simp add: w_def)
  have d: "d = (if bit N w then CHR ''1'' else CHR ''0'')"
    using Cons.prems(3) [rule_format, of 0] by (simp add: w_def)
  have l: "Suc j + length ds = m" using Cons.prems(1) by simp
  have ds: "\<forall>i<length ds. ds ! i = (if bit N (n - 1 - (Suc j + i)) then CHR ''1'' else CHR ''0'')"
  proof (intro allI impI)
    fix i assume "i < length ds"
    then have "Suc i < length (d # ds)" by simp
    from Cons.prems(3) [rule_format, OF this]
    show "ds ! i = (if bit N (n - 1 - (Suc j + i)) then CHR ''1'' else CHR ''0'')" by simp
  qed
  show ?case
  proof (cases "bit N w")
    case True
    have inv: "\<forall>v. bit y v = (bit x v \<noteq> (n - m \<le> v \<and> v < n - Suc j \<and> \<not> bit N v))"
    proof
      fix v
      show "bit y v = (bit x v \<noteq> (n - m \<le> v \<and> v < n - Suc j \<and> \<not> bit N v))"
        using Cons.prems(4) [rule_format, of v] True jn by (cases "v = w") (auto simp: w_def)
    qed
    have "?f (j, d) = []" using True by (simp add: d)
    then show ?thesis
      unfolding enumerate_simps list.map concat.simps
      using Cons.IH [OF l Cons.prems(2) ds inv] by (simp only: append_Nil)
  next
    case False
    have inv: "\<forall>v. bit (flip_bit w y) v = (bit x v \<noteq> (n - m \<le> v \<and> v < n - Suc j \<and> \<not> bit N v))"
    proof
      fix v
      show "bit (flip_bit w y) v = (bit x v \<noteq> (n - m \<le> v \<and> v < n - Suc j \<and> \<not> bit N v))"
        unfolding bit_flip_bit_nat
        using Cons.prems(4) [rule_format, of v] False jn jm Cons.prems(2)
        by (cases "v = w") (auto simp: w_def)
    qed
    have blk: "?f (j, d) = [(XGate, [w])]" using False by (simp add: d w_def)
    have 1: "apply_circuit umat [(XGate, [w])] (\<lambda>z. s * basis y z) = (\<lambda>z. s * basis (flip_bit w y) z)"
      by (simp only: apply_circuit_Cons apply_circuit_Nil apply_x_basis)
    show ?thesis
      unfolding enumerate_simps list.map concat.simps blk apply_circuit_append 1
      by (rule Cons.IH [OF l Cons.prems(2) ds inv])
  qed
qed

section \<open>The less-than oracle of code_oracle.py marks the numbers below the bound\<close>

text \<open>
  The less-than oracle of code_oracle.py is right: for \<open>0 < number < 2^nqubits\<close>
  it returns a circuit, and on every basis state \<open>x\<close> of the register that circuit
  multiplies the amplitude by \<open>-1\<close> when \<open>x < number\<close> and leaves it alone otherwise.
  After digit \<open>j\<close> of the stripped binary string the state is the input with the
  wires of the zero digits seen so far flipped, and the phase is \<open>-1\<close> exactly when
  the leading \<open>j + 1\<close> bits of \<open>x\<close> are below those of \<open>number\<close>.
\<close>

lemma oracle_less_than_mcx_marks:
  fixes number x :: nat
  assumes pos: "0 < number" and N: "number < 2 ^ nqubits" and x: "x < 2 ^ nqubits"
  shows "\<exists>c. oracle_less_than_mcx number nqubits = Inr c
           \<and> apply_circuit umat (data c) (basis x)
               = (\<lambda>z. (if x < number then - 1 else 1) * basis x z)"
proof -
  define n where "n = nqubits"
  note N = N [folded n_def] and x = x [folded n_def]
  let ?dig = "\<lambda>j. if bit number (n - 1 - j) then CHR ''1'' else CHR ''0''"
  define binary where "binary = map ?dig [0..<n]"
  define stripped where "stripped = rstrip0 binary"
  define m where "m = length stripped"
  have n1: "1 \<le> n"
  proof (rule ccontr)
    assume "\<not> 1 \<le> n"
    then have "n = 0" by simp
    with N pos show False by simp
  qed
  have bin: "snd (to_binary number (Some (int n))) = Some binary"
    unfolding binary_def by (rule to_binary_bits [OF N n1])
  obtain k where dec: "binary = stripped @ replicate k (CHR ''0'')"
    unfolding stripped_def using rstrip0_decompose by blast
  have lenb: "length binary = n" by (simp add: binary_def)
  have mk: "m + k = n" using dec lenb by (simp add: m_def)
  have dig: "stripped ! j = ?dig j" if "j < m" for j
  proof -
    have "stripped ! j = binary ! j" using that unfolding dec m_def by (simp add: nth_append)
    also have "\<dots> = ?dig j" using that mk by (simp add: binary_def)
    finally show ?thesis .
  qed
  have low: "\<not> bit number v" if "v < n - m" for v
  proof -
    let ?j = "n - 1 - v"
    have j: "m \<le> ?j" "?j < n" using that by simp_all
    then have "binary ! ?j = CHR ''0''" unfolding dec using mk by (simp add: nth_append m_def)
    moreover have "binary ! ?j = ?dig ?j" using j by (simp add: binary_def)
    moreover have "n - 1 - ?j = v" using that by simp
    ultimately show ?thesis by (auto split: if_splits)
  qed
  have m1: "1 \<le> m"
  proof (rule ccontr)
    assume "\<not> 1 \<le> m"
    then have "m = 0" by simp
    then have "\<forall>v<n. \<not> bit number v" using low by simp
    moreover have "\<forall>v\<ge>n. \<not> bit number v" using bit_above_bound [OF N] by blast
    ultimately have "\<forall>v. \<not> bit number v" by (metis linorder_not_less)
    then have "number = 0" by (intro bit_eqI) simp
    with pos show False by simp
  qed
  then obtain first rest where fr: "stripped = first # rest"
    by (cases stripped) (simp_all add: m_def)
  have mr: "m = Suc (length rest)" by (simp add: m_def fr)
  have len: "Suc (length rest) \<le> n" using mk mr by simp
  have first: "first = ?dig 0" using dig [of 0] m1 by (simp add: fr)
  let ?s0 = "if first = CHR ''1'' then [(XGate, [n - 1]), (ZGate, [n - 1]), (XGate, [n - 1])]
       else [(XGate, [n - 1])]"
  let ?f1 = "\<lambda>(p1, v).
           if v = CHR ''0'' then [(XGate, [n - p1 - 2])]
           else [(XGate, [n - p1 - 2]), (HGate, [n - p1 - 2]),
                 (MCXGate (p1 + 1), map (\<lambda>i. n - 1 - i) [0..<p1 + 1] @ [n - p1 - 2]),
                 (HGate, [n - p1 - 2]), (XGate, [n - p1 - 2])]"
  let ?f2 = "\<lambda>(p, v). if v = CHR ''0'' then [(XGate, [n - p - 1])] else []"
  let ?L1 = "concat (map ?f1 (enumerate 0 rest))"
  let ?L2 = "concat (map ?f2 (enumerate 0 (first # rest)))"
  have run: "oracle_less_than_mcx number n = Inr \<lparr>num_qubits = n, data = ?s0 @ ?L1 @ ?L2\<rparr>"
    by (rule oracle_less_than_mcx_data [OF bin fr [unfolded stripped_def] len])
  have G0: "apply_circuit umat [(ZGate, [n - 1])] (\<lambda>z. s * basis y z)
             = (\<lambda>z. (if list_all (bit y) [] \<and> bit y (n - 1 - 0) then - s else s) * basis y z)" for s y
    by (simp only: apply_circuit_Cons apply_circuit_Nil apply_z_basis) simp
  have inv0: "\<forall>v. bit x v = (bit x v \<noteq> (n - 0 \<le> v \<and> v < n \<and> \<not> bit number v))" by auto
  have C0: "set [] = {v. n - 0 \<le> v \<and> v < n}" by auto
  have p0: "0 < n" using n1 by simp
  have s0: "?s0 = (if bit number (n - 1 - 0)
               then [(XGate, [n - 1 - 0])] @ [(ZGate, [n - 1])] @ [(XGate, [n - 1 - 0])]
               else [(XGate, [n - 1 - 0])])"
    by (simp add: first)
  have z: "x div 2 ^ (n - 0) = 0" "number div 2 ^ (n - 0) = 0" using x N by simp_all
  have start: "basis x = (\<lambda>z. (if x div 2 ^ (n - 0) < number div 2 ^ (n - 0) then - 1 else 1) * basis x z)"
    unfolding z by simp
  obtain y1 where r0: "apply_circuit umat ?s0 (basis x)
            = (\<lambda>z. (if x div 2 ^ (n - (0 + 1)) < number div 2 ^ (n - (0 + 1)) then - 1 else 1) * basis y1 z)"
    and i0: "\<forall>v. bit y1 v = (bit x v \<noteq> (n - (0 + 1) \<le> v \<and> v < n \<and> \<not> bit number v))"
    using oracle_step [OF x N p0 inv0 G0 C0, folded s0 start] by auto
  have digs1: "\<forall>i<length rest. rest ! i = (if bit number (n - (0 + i) - 2) then CHR ''1'' else CHR ''0'')"
  proof (intro allI impI)
    fix i assume i: "i < length rest"
    then have "Suc i < m" by (simp add: mr)
    from dig [OF this] have "rest ! i = ?dig (Suc i)" by (simp add: fr)
    moreover have "n - 1 - Suc i = n - (0 + i) - 2" by simp
    ultimately show "rest ! i = (if bit number (n - (0 + i) - 2) then CHR ''1'' else CHR ''0'')"
      by simp
  qed
  have l1: "0 + 1 + length rest \<le> n" using len by simp
  obtain y2 where r1: "apply_circuit umat ?L1
            (\<lambda>z. (if x div 2 ^ (n - (0 + 1)) < number div 2 ^ (n - (0 + 1)) then - 1 else 1) * basis y1 z)
          = (\<lambda>z. (if x div 2 ^ (n - (0 + 1 + length rest)) < number div 2 ^ (n - (0 + 1 + length rest))
                  then - 1 else 1) * basis y2 z)"
    and i1: "\<forall>v. bit y2 v = (bit x v \<noteq> (n - (0 + 1 + length rest) \<le> v \<and> v < n \<and> \<not> bit number v))"
    using loop1_sem [OF x N l1 digs1 i0] by blast
  have em: "0 + 1 + length rest = m" by (simp add: mr)
  have digs2: "\<forall>i<length (first # rest). (first # rest) ! i
                 = (if bit number (n - 1 - (0 + i)) then CHR ''1'' else CHR ''0'')"
  proof (intro allI impI)
    fix i assume "i < length (first # rest)"
    then have "i < m" by (simp add: mr)
    from dig [OF this] show "(first # rest) ! i = (if bit number (n - 1 - (0 + i)) then CHR ''1'' else CHR ''0'')"
      by (simp add: fr)
  qed
  have l2: "0 + length (first # rest) = m" by (simp add: mr)
  have mn: "m \<le> n" using mk by simp
  have i2: "\<forall>v. bit y2 v = (bit x v \<noteq> (n - m \<le> v \<and> v < n - 0 \<and> \<not> bit number v))"
    using i1 unfolding em by simp
  have r2: "apply_circuit umat ?L2 (\<lambda>z. s * basis y2 z) = (\<lambda>z. s * basis x z)" for s
    by (rule loop2_sem [OF l2 mn digs2 i2])
  have sgn: "(x div 2 ^ (n - m) < number div 2 ^ (n - m)) \<longleftrightarrow> x < number"
    by (rule low_bits_zero_less) (use low in blast)
  have "apply_circuit umat (?s0 @ ?L1 @ ?L2) (basis x)
      = (\<lambda>z. (if x div 2 ^ (n - m) < number div 2 ^ (n - m) then - 1 else 1) * basis x z)"
    unfolding apply_circuit_append r0 r1 em r2 ..
  then have "apply_circuit umat (?s0 @ ?L1 @ ?L2) (basis x)
      = (\<lambda>z. (if x < number then - 1 else 1) * basis x z)"
    unfolding sgn .
  with run show ?thesis unfolding n_def by simp
qed

section \<open>The diagonal less-than oracle\<close>

lemma ilog2_pow2: "ilog2 (2 ^ n) = n"
proof (induction n)
  case 0
  show ?case by (simp add: ilog2.simps)
next
  case (Suc n)
  have "ilog2 (2 ^ Suc n) = Suc (ilog2 (2 ^ Suc n div 2))"
    by (subst ilog2.simps) simp
  then show ?case using Suc by simp
qed

lemma length_array_less_than:
  "number \<le> N \<Longrightarrow> length (array_less_than number N) = N"
  by (simp add: array_less_than_def)

lemma array_less_than_nth:
  "x < N \<Longrightarrow> array_less_than number N ! x = (if x < number then - 1 else 1)"
  by (simp add: array_less_than_def nth_append)

lemma sub_index_upt: "sub_index [k..<k + n] x = take_bit n (drop_bit k x)"
proof (induction n arbitrary: k)
  case 0
  show ?case by simp
next
  case (Suc n)
  have l: "[k..<k + Suc n] = k # [Suc k..<Suc k + n]" by (simp add: upt_conv_Cons)
  have d: "drop_bit k x div 2 = drop_bit (Suc k) x"
    by (simp add: drop_bit_Suc drop_bit_half)
  have b: "drop_bit k x mod 2 = (if bit x k then 1 else 0)"
    by (simp add: bit_iff_odd_drop_bit mod_2_eq_odd)
  have "take_bit (Suc n) (drop_bit k x) = take_bit n (drop_bit k x div 2) * 2 + drop_bit k x mod 2"
    by (rule take_bit_Suc)
  then show ?case unfolding l sub_index.simps Suc.IH d b by simp
qed

lemma sub_index_all: "x < 2 ^ n \<Longrightarrow> sub_index [0..<n] x = x"
  using sub_index_upt [of 0 n x] by (simp add: take_bit_nat_eq_self)

lemma diagonal_oracle_less_than_data:
  assumes n: "1 \<le> nqubits" and N: "number \<le> 2 ^ nqubits"
  shows "diagonal_oracle_less_than number nqubits
           = Inr \<lparr>num_qubits = nqubits,
                  data = [(Diagonal (array_less_than number (2 ^ nqubits)), [0..<nqubits])]\<rparr>"
proof -
  let ?v = "array_less_than number (2 ^ nqubits)"
  have len: "length ?v = 2 ^ nqubits" by (rule length_array_less_than [OF N])
  have g: "diagonal_gate ?v = Inr (Diagonal ?v)"
    using n by (simp add: diagonal_gate_def len ilog2_pow2)
  have r: "py_range 0 (int nqubits) = map int [0..<nqubits]"
    using py_range_nat [of 0 nqubits] by simp
  have q: "qubit_indices (QuantumCircuit nqubits) (map int [0..<nqubits])
             = Inr (map nat (map int [0..<nqubits]))"
    by (rule qubit_indices_in_range) (simp add: list_all_iff QuantumCircuit_def)
  have m: "map nat (map int [0..<nqubits]) = [0..<nqubits]"
    by (simp add: map_idI)
  have a: "append_gate (QuantumCircuit nqubits) (Diagonal ?v) (map int [0..<nqubits])
             = Inr ((QuantumCircuit nqubits)\<lparr>data := data (QuantumCircuit nqubits)
                       @ [(Diagonal ?v, [0..<nqubits])]\<rparr>)"
    unfolding append_gate_def q m by (simp add: bind_err_def len ilog2_pow2)
  show ?thesis
    unfolding diagonal_oracle_less_than_def Let_def g r bind_err_Inr a
    by (simp add: QuantumCircuit_def)
qed

lemma apply_diagonal_basis:
  assumes x: "x < 2 ^ n"
  shows "apply_circuit umat [(Diagonal v, [0..<n])] (basis x)
           = (\<lambda>z. complex_of_int (v ! x) * basis x z)"
proof (rule ext)
  fix z :: nat
  show "apply_circuit umat [(Diagonal v, [0..<n])] (basis x) z
          = complex_of_int (v ! x) * basis x z"
  proof (cases "z = x")
    case True
    then show ?thesis using sub_index_all [OF x] by (simp add: apply_circuit_def)
  next
    case False
    then show ?thesis by (simp add: apply_circuit_def basis_def)
  qed
qed

text \<open>
  The diagonal oracle by itself is right: for \<open>nqubits \<ge> 1\<close> and \<open>number < 2^nqubits\<close>
  it returns the circuit of one \<open>Diagonal\<close> gate on the wires \<open>0, \<dots>, nqubits - 1\<close>,
  whose vector has \<open>2^nqubits\<close> entries, \<open>-1\<close> at the indices below \<open>number\<close> and \<open>+1\<close>
  at the others, and the circuit multiplies basis state \<open>x\<close> by \<open>-1\<close> when
  \<open>x < number\<close> and by \<open>+1\<close> otherwise. For \<open>0 < number\<close> these are the phases of the
  less-than oracle of code_oracle.py.
\<close>

lemma diagonal_oracle_less_than_marks:
  fixes number x :: nat
  assumes n: "1 \<le> nqubits" and N: "number < 2 ^ nqubits" and x: "x < 2 ^ nqubits"
  shows "\<exists>d. diagonal_oracle_less_than number nqubits = Inr d
           \<and> data d = [(Diagonal (array_less_than number (2 ^ nqubits)), [0..<nqubits])]
           \<and> length (array_less_than number (2 ^ nqubits)) = 2 ^ nqubits
           \<and> array_less_than number (2 ^ nqubits) ! x = (if x < number then - 1 else 1)
           \<and> apply_circuit umat (data d) (basis x)
               = (\<lambda>z. (if x < number then - 1 else 1) * basis x z)
           \<and> (0 < number \<longrightarrow>
                (\<exists>c. oracle_less_than_mcx number nqubits = Inr c
                   \<and> apply_circuit umat (data c) (basis x) = apply_circuit umat (data d) (basis x)))"
proof -
  let ?v = "array_less_than number (2 ^ nqubits)"
  let ?d = "\<lparr>num_qubits = nqubits, data = [(Diagonal ?v, [0..<nqubits])]\<rparr>"
  let ?ph = "\<lambda>z. (if x < number then - 1 else 1) * basis x z"
  have N': "number \<le> 2 ^ nqubits" using N by simp
  have d: "diagonal_oracle_less_than number nqubits = Inr ?d"
    by (rule diagonal_oracle_less_than_data [OF n N'])
  have len: "length ?v = 2 ^ nqubits" by (rule length_array_less_than [OF N'])
  have nth: "?v ! x = (if x < number then - 1 else 1)" by (rule array_less_than_nth [OF x])
  have sem: "apply_circuit umat (data ?d) (basis x) = ?ph"
    using apply_diagonal_basis [OF x, of umat ?v] unfolding nth by (simp cong: if_cong)
  have mcx: "\<exists>c. oracle_less_than_mcx number nqubits = Inr c
                \<and> apply_circuit umat (data c) (basis x) = apply_circuit umat (data ?d) (basis x)"
    if "0 < number"
    using oracle_less_than_mcx_marks [OF that N x, of umat] unfolding sem by simp
  show ?thesis
    apply (rule exI [of _ ?d])
    apply (intro conjI)
         apply (rule d)
        apply simp
       apply (rule len)
      apply (rule nth)
     apply (rule sem)
    apply (rule impI)
    apply (erule mcx)
    done
qed

text \<open>
  Claim C5 says that for every \<open>N\<close> representable on \<open>nqubits\<close> wires the circuit of
  \<^verbatim>\<open>diagonal_oracle_less_than(N, nqubits)\<close> gives each basis state the phase that
  \<^verbatim>\<open>oracle_less_than(N, nqubits)\<close> gives it. The diagonal oracle returns its circuit,
  and the \<^verbatim>\<open>oracle_less_than\<close> of functions_oracles.py returns none to compare it with:
  for \<open>N = 42\<close> on 6 wires, the call of examples_oracles.py, it raises \<^verbatim>\<open>TypeError\<close>
  from \<^verbatim>\<open>multi_control_z\<close>, and for \<open>N = 0\<close> on one wire it raises \<^verbatim>\<open>IndexError\<close> where
  the diagonal oracle returns the identity.
\<close>

theorem diagonal_oracle_less_than_no_counterpart:
  "diagonal_oracle_less_than 42 6
     = Inr \<lparr>num_qubits = 6, data = [(Diagonal (array_less_than 42 (2 ^ 6)), [0..<6])]\<rparr>
   \<and> oracle_less_than 42 6 = Inl TypeError
   \<and> diagonal_oracle_less_than 0 1 = Inr \<lparr>num_qubits = 1, data = [(Diagonal [1, 1], [0])]\<rparr>
   \<and> oracle_less_than 0 1 = Inl IndexError"
proof (intro conjI)
  show "diagonal_oracle_less_than 42 6
     = Inr \<lparr>num_qubits = 6, data = [(Diagonal (array_less_than 42 (2 ^ 6)), [0..<6])]\<rparr>"
    by (rule diagonal_oracle_less_than_data) simp_all
  have b42: "bin_digits 42 = ''101010''" by code_simp
  show "oracle_less_than 42 6 = Inl TypeError"
    by (simp add: oracle_less_than_def multi_control_z_def call_linear_mc_gate_def
        linear_mc_gate_params_def eval_defs b42)
  have "diagonal_oracle_less_than 0 1
          = Inr \<lparr>num_qubits = 1, data = [(Diagonal (array_less_than 0 (2 ^ 1)), [0..<1])]\<rparr>"
    by (rule diagonal_oracle_less_than_data) simp_all
  moreover have "array_less_than 0 (2 ^ 1) = [1, 1]"
    by (simp add: array_less_than_def numeral_2_eq_2)
  ultimately show "diagonal_oracle_less_than 0 1
      = Inr \<lparr>num_qubits = 1, data = [(Diagonal [1, 1], [0])]\<rparr>"
    by simp
  show "oracle_less_than 0 1 = Inl IndexError"
    unfolding oracle_less_than_def by (rule oracle_less_than_body_zero) simp
qed

end
